theory Spec2Isabelle
  imports Main "HOL-Library.Sublist"
begin

section \<open>The interpreter of spi.py\<close>

text \<open>
  The program is a three-stage pipeline: a lexer with a cursor into the input text, a
  recursive-descent parser with one token of lookahead, and a tree-walking interpreter.
  Every Python exception is a value of \<open>error\<close>; a function that can raise returns
  \<open>error + 'a\<close> with \<open>Inl\<close> for the exception.

  Conventions of the embedding:
  \<^item> the input text is a \<open>string\<close>, each \<open>char\<close> read as the code point of that number
    (U+0000 to U+00FF); \<open>isspace\<close> and \<open>isdigit\<close> are Python's \<open>str.isspace\<close> and
    \<open>str.isdigit\<close> on that range;
  \<^item> Python integers are \<open>int\<close> (unbounded); the interpreter's recursion limit and the
    limit on the number of digits \<open>int()\<close> converts are resource limits of the host and are
    not part of the model.
\<close>

subsection \<open>Exceptions and values\<close>

datatype error =
    IndexError
  | ValueError
  | TypeError
  | ZeroDivisionError
  | Exception string

text \<open>
  \<open>Exception\<close> carries its message: \<open>Invalid character\<close> from the lexer,
  \<open>Invalid syntax\<close> from the parser, \<open>No visit_NoneType method\<close> from the interpreter.
  \<open>ZeroDivisionError\<close> is the one subclass of Python's \<open>ArithmeticError\<close> raised here.
\<close>

datatype pyval = PyInt int | PyStr string | PyNone

subsection \<open>Lexer\<close>

datatype token_type = INTEGER | PLUS | MINUS | MUL | DIV | LPAREN | RPAREN | EOF

datatype token = Token (tok_type: token_type) (tok_value: pyval)

record lexer =
  input_text :: string
  pos :: nat
  current_char :: "char option"

definition isspace :: "char \<Rightarrow> bool" where
  "isspace c = (let n = (of_char c :: nat) in
     (9 \<le> n \<and> n \<le> 13) \<or> (28 \<le> n \<and> n \<le> 32) \<or> n = 133 \<or> n = 160)"

definition isdigit :: "char \<Rightarrow> bool" where
  "isdigit c = (let n = (of_char c :: nat) in
     (48 \<le> n \<and> n \<le> 57) \<or> n = 178 \<or> n = 179 \<or> n = 185)"

text \<open>
  \<open>int(result)\<close> on a run of \<open>isdigit\<close> characters, the only argument the lexer passes:
  the base-10 value when every character is one of \<open>0\<close> to \<open>9\<close>, and \<open>ValueError\<close> on the
  empty string and on the superscript digits, which \<open>isdigit\<close> accepts and \<open>int\<close> does not.
\<close>

definition is_decimal :: "char \<Rightarrow> bool" where
  "is_decimal c = (let n = (of_char c :: nat) in 48 \<le> n \<and> n \<le> 57)"

definition decimal_value :: "string \<Rightarrow> int" where
  "decimal_value s = foldl (\<lambda>acc c. 10 * acc + (int (of_char c) - 48)) 0 s"

definition int_py :: "string \<Rightarrow> error + int" where
  "int_py s = (if s \<noteq> [] \<and> list_all is_decimal s then Inr (decimal_value s)
               else Inl ValueError)"

text \<open>\<open>Lexer.__init__\<close>: \<open>self.text[self.pos]\<close> with \<open>pos = 0\<close> raises on the empty text.\<close>

definition Lexer_init :: "string \<Rightarrow> error + lexer" where
  "Lexer_init txt =
     (if txt = [] then Inl IndexError
      else Inr \<lparr>input_text = txt, pos = 0, current_char = Some (txt ! 0)\<rparr>)"

definition advance :: "lexer \<Rightarrow> lexer" where
  "advance L =
     (let p = pos L + 1 in
      if int p > int (length (input_text L)) - 1
      then L\<lparr>pos := p, current_char := None\<rparr>
      else L\<lparr>pos := p, current_char := Some (input_text L ! p)\<rparr>)"

text \<open>
  The loops of the lexer run while \<open>current_char\<close> is not \<open>None\<close>; each round calls
  \<open>advance\<close>, which moves the cursor towards the end of the text.
\<close>

definition chars_left :: "lexer \<Rightarrow> nat" where
  "chars_left L =
     (case current_char L of None \<Rightarrow> 0 | Some c \<Rightarrow> Suc (length (input_text L) - pos L))"

lemma chars_left_advance:
  "current_char L = Some c \<Longrightarrow> chars_left (advance L) < chars_left L"
  by (auto simp: chars_left_def advance_def Let_def)

function skip_whitespace :: "lexer \<Rightarrow> lexer" where
  "skip_whitespace L =
     (case current_char L of
        None \<Rightarrow> L
      | Some c \<Rightarrow> if isspace c then skip_whitespace (advance L) else L)"
  by pat_completeness auto
termination
  by (relation "measure chars_left") (auto simp: chars_left_advance)

declare skip_whitespace.simps [simp del]

function integer_loop :: "string \<Rightarrow> lexer \<Rightarrow> string \<times> lexer" where
  "integer_loop result L =
     (case current_char L of
        None \<Rightarrow> (result, L)
      | Some c \<Rightarrow> if isdigit c then integer_loop (result @ [c]) (advance L)
                  else (result, L))"
  by pat_completeness auto
termination
  by (relation "measure (\<lambda>(result, L). chars_left L)") (auto simp: chars_left_advance)

declare integer_loop.simps [simp del]

definition integer :: "lexer \<Rightarrow> error + (int \<times> lexer)" where
  "integer L =
     (case integer_loop [] L of
        (result, L') \<Rightarrow>
          (case int_py result of Inl e \<Rightarrow> Inl e | Inr n \<Rightarrow> Inr (n, L')))"

lemma chars_left_skip_whitespace_le: "chars_left (skip_whitespace L) \<le> chars_left L"
proof (induction L rule: skip_whitespace.induct)
  case (1 L)
  show ?case
  proof (cases "current_char L")
    case None
    then show ?thesis by (simp add: skip_whitespace.simps [of L])
  next
    case (Some c)
    show ?thesis
    proof (cases "isspace c")
      case True
      have "chars_left (skip_whitespace (advance L)) \<le> chars_left (advance L)"
        using "1.IH" Some True by simp
      also have "\<dots> < chars_left L"
        using Some by (rule chars_left_advance)
      finally show ?thesis
        using Some True by (simp add: skip_whitespace.simps [of L])
    next
      case False
      with Some show ?thesis by (simp add: skip_whitespace.simps [of L])
    qed
  qed
qed

lemma chars_left_skip_whitespace:
  assumes "current_char L = Some c" and "isspace c"
  shows "chars_left (skip_whitespace L) < chars_left L"
proof -
  have "skip_whitespace L = skip_whitespace (advance L)"
    using assms by (simp add: skip_whitespace.simps [of L])
  moreover have "chars_left (skip_whitespace (advance L)) \<le> chars_left (advance L)"
    by (rule chars_left_skip_whitespace_le)
  moreover have "chars_left (advance L) < chars_left L"
    using assms(1) by (rule chars_left_advance)
  ultimately show ?thesis by simp
qed

function get_next_token :: "lexer \<Rightarrow> error + (token \<times> lexer)" where
  "get_next_token L =
     (case current_char L of
        None \<Rightarrow> Inr (Token EOF PyNone, L)
      | Some c \<Rightarrow>
          if isspace c then get_next_token (skip_whitespace L)
          else if isdigit c then
            (case integer L of
               Inl e \<Rightarrow> Inl e
             | Inr (n, L') \<Rightarrow> Inr (Token INTEGER (PyInt n), L'))
          else if c = CHR ''+'' then Inr (Token PLUS (PyStr ''+''), advance L)
          else if c = CHR ''-'' then Inr (Token MINUS (PyStr ''-''), advance L)
          else if c = CHR ''*'' then Inr (Token MUL (PyStr ''*''), advance L)
          else if c = CHR ''/'' then Inr (Token DIV (PyStr ''/''), advance L)
          else if c = CHR ''('' then Inr (Token LPAREN (PyStr ''(''), advance L)
          else if c = CHR '')'' then Inr (Token RPAREN (PyStr '')''), advance L)
          else Inl (Exception ''Invalid character''))"
  by pat_completeness auto
termination
  by (relation "measure chars_left") (auto simp: chars_left_skip_whitespace)

declare get_next_token.simps [simp del]

subsection \<open>Parser\<close>

text \<open>
  An AST node is a \<open>Num\<close> or a \<open>BinOp\<close> object. \<open>factor\<close> can also return Python's
  \<open>None\<close> (its \<open>if\<close>/\<open>elif\<close> has no \<open>else\<close>), and \<open>term\<close> and \<open>expr\<close> store whatever
  \<open>factor\<close> returned as a child, so the value \<open>None\<close> is part of the type of nodes.
\<close>

datatype ast =
    NoneNode
  | Num token
  | BinOp (left: ast) (op: token) (right: ast)

record parser =
  lexer :: lexer
  current_token :: token

definition Parser_init :: "lexer \<Rightarrow> error + parser" where
  "Parser_init lx =
     (case get_next_token lx of
        Inl e \<Rightarrow> Inl e
      | Inr (tok, lx') \<Rightarrow> Inr \<lparr>lexer = lx', current_token = tok\<rparr>)"

definition eat :: "token_type \<Rightarrow> parser \<Rightarrow> error + parser" where
  "eat token_type P =
     (if tok_type (current_token P) = token_type then
        (case get_next_token (lexer P) of
           Inl e \<Rightarrow> Inl e
         | Inr (tok, lx') \<Rightarrow> Inr (P\<lparr>lexer := lx', current_token := tok\<rparr>))
      else Inl (Exception ''Invalid syntax''))"

text \<open>
  \<open>factor\<close>, \<open>term\<close> (here \<open>term_rule\<close>) and \<open>expr\<close> call each other, and \<open>term\<close>
  and \<open>expr\<close> loop. The
  recursion is bounded by fuel: every call and every round of a loop spends one unit, and
  \<open>None\<close> means that the fuel ran out. \<open>term_loop\<close> and \<open>expr_loop\<close> are the two
  \<open>while\<close> loops, with the node built so far as an argument.
\<close>

type_synonym parse_result = "(error + ast \<times> parser) option"

fun factor :: "nat \<Rightarrow> parser \<Rightarrow> parse_result"
  and term_rule :: "nat \<Rightarrow> parser \<Rightarrow> parse_result"
  and term_loop :: "nat \<Rightarrow> ast \<Rightarrow> parser \<Rightarrow> parse_result"
  and expr :: "nat \<Rightarrow> parser \<Rightarrow> parse_result"
  and expr_loop :: "nat \<Rightarrow> ast \<Rightarrow> parser \<Rightarrow> parse_result"
where
  "factor 0 P = None"
| "factor (Suc n) P =
     (let token = current_token P in
      if tok_type token = INTEGER then
        (case eat INTEGER P of
           Inl e \<Rightarrow> Some (Inl e)
         | Inr P1 \<Rightarrow> Some (Inr (Num token, P1)))
      else if tok_type token = LPAREN then
        (case eat LPAREN P of
           Inl e \<Rightarrow> Some (Inl e)
         | Inr P1 \<Rightarrow>
             (case expr n P1 of
                None \<Rightarrow> None
              | Some (Inl e) \<Rightarrow> Some (Inl e)
              | Some (Inr (node, P2)) \<Rightarrow>
                  (case eat RPAREN P2 of
                     Inl e \<Rightarrow> Some (Inl e)
                   | Inr P3 \<Rightarrow> Some (Inr (node, P3)))))
      else Some (Inr (NoneNode, P)))"
| "term_rule 0 P = None"
| "term_rule (Suc n) P =
     (case factor n P of
        None \<Rightarrow> None
      | Some (Inl e) \<Rightarrow> Some (Inl e)
      | Some (Inr (node, P1)) \<Rightarrow> term_loop n node P1)"
| "term_loop 0 node P = None"
| "term_loop (Suc n) node P =
     (let token = current_token P in
      if tok_type token = MUL \<or> tok_type token = DIV then
        (case (if tok_type token = MUL then eat MUL P else eat DIV P) of
           Inl e \<Rightarrow> Some (Inl e)
         | Inr P1 \<Rightarrow>
             (case factor n P1 of
                None \<Rightarrow> None
              | Some (Inl e) \<Rightarrow> Some (Inl e)
              | Some (Inr (r, P2)) \<Rightarrow> term_loop n (BinOp node token r) P2))
      else Some (Inr (node, P)))"
| "expr 0 P = None"
| "expr (Suc n) P =
     (case term_rule n P of
        None \<Rightarrow> None
      | Some (Inl e) \<Rightarrow> Some (Inl e)
      | Some (Inr (node, P1)) \<Rightarrow> expr_loop n node P1)"
| "expr_loop 0 node P = None"
| "expr_loop (Suc n) node P =
     (let token = current_token P in
      if tok_type token = PLUS \<or> tok_type token = MINUS then
        (case (if tok_type token = PLUS then eat PLUS P else eat MINUS P) of
           Inl e \<Rightarrow> Some (Inl e)
         | Inr P1 \<Rightarrow>
             (case term_rule n P1 of
                None \<Rightarrow> None
              | Some (Inl e) \<Rightarrow> Some (Inl e)
              | Some (Inr (r, P2)) \<Rightarrow> expr_loop n (BinOp node token r) P2))
      else Some (Inr (node, P)))"

definition parse :: "nat \<Rightarrow> parser \<Rightarrow> parse_result" where
  "parse n P = expr n P"

subsection \<open>Interpreter\<close>

text \<open>
  The arithmetic of \<open>visit_BinOp\<close> on Python values. Only integers reach it (a \<open>Num\<close>
  holds the value of an \<open>INTEGER\<close> token, and \<open>visit\<close> raises on \<open>None\<close> before any
  operator is applied); every other combination of operands is given \<open>TypeError\<close>.
  \<open>//\<close> is floor division and raises \<open>ZeroDivisionError\<close> on a zero divisor.
\<close>

fun py_add :: "pyval \<Rightarrow> pyval \<Rightarrow> error + pyval" where
  "py_add (PyInt a) (PyInt b) = Inr (PyInt (a + b))"
| "py_add _ _ = Inl TypeError"

fun py_sub :: "pyval \<Rightarrow> pyval \<Rightarrow> error + pyval" where
  "py_sub (PyInt a) (PyInt b) = Inr (PyInt (a - b))"
| "py_sub _ _ = Inl TypeError"

fun py_mul :: "pyval \<Rightarrow> pyval \<Rightarrow> error + pyval" where
  "py_mul (PyInt a) (PyInt b) = Inr (PyInt (a * b))"
| "py_mul _ _ = Inl TypeError"

fun py_floordiv :: "pyval \<Rightarrow> pyval \<Rightarrow> error + pyval" where
  "py_floordiv (PyInt a) (PyInt b) =
     (if b = 0 then Inl ZeroDivisionError else Inr (PyInt (a div b)))"
| "py_floordiv _ _ = Inl TypeError"

text \<open>
  \<open>visit\<close> dispatches on the class of the node: \<open>visit_Num\<close> returns \<open>node.value\<close>,
  \<open>visit_BinOp\<close> visits the left child, then the right one, then applies the operator,
  and any other object (here \<open>None\<close>) goes to \<open>generic_visit\<close>, which raises. A \<open>BinOp\<close>
  whose token is none of the four operators falls off the end of \<open>visit_BinOp\<close>, which
  returns \<open>None\<close>.
\<close>

definition binop :: "(pyval \<Rightarrow> pyval \<Rightarrow> error + pyval) \<Rightarrow>
    error + pyval \<Rightarrow> error + pyval \<Rightarrow> error + pyval" where
  "binop f l r =
     (case l of
        Inl e \<Rightarrow> Inl e
      | Inr a \<Rightarrow> (case r of Inl e \<Rightarrow> Inl e | Inr b \<Rightarrow> f a b))"

fun visit :: "ast \<Rightarrow> error + pyval" where
  "visit NoneNode = Inl (Exception ''No visit_NoneType method'')"
| "visit (Num token) = Inr (tok_value token)"
| "visit (BinOp l token r) =
     (if tok_type token = PLUS then binop py_add (visit l) (visit r)
      else if tok_type token = MINUS then binop py_sub (visit l) (visit r)
      else if tok_type token = MUL then binop py_mul (visit l) (visit r)
      else if tok_type token = DIV then binop py_floordiv (visit l) (visit r)
      else Inr PyNone)"

definition Interpreter_interpret :: "nat \<Rightarrow> parser \<Rightarrow> (error + pyval) option" where
  "Interpreter_interpret n P =
     (case parse n P of
        None \<Rightarrow> None
      | Some (Inl e) \<Rightarrow> Some (Inl e)
      | Some (Inr (tree, P')) \<Rightarrow> Some (visit tree))"

text \<open>
  \<open>evaluate\<close> is one round of \<open>main\<close> on a line of text: \<open>Lexer(text)\<close>,
  \<open>Parser(lexer)\<close>, \<open>Interpreter(parser)\<close>, \<open>interpret()\<close>. \<open>main\<close> itself leaves
  on an empty line before it builds a lexer; \<open>evaluate\<close> is defined on every text.
  The parser gets three units of fuel for each character of the text and three more,
  which is enough for every text (theorem \<open>evaluate_terminates\<close>).
\<close>

definition parser_of :: "string \<Rightarrow> error + parser" where
  "parser_of txt =
     (case Lexer_init txt of
        Inl e \<Rightarrow> Inl e
      | Inr lx \<Rightarrow> Parser_init lx)"

definition evaluate_with :: "nat \<Rightarrow> string \<Rightarrow> (error + pyval) option" where
  "evaluate_with n txt =
     (case parser_of txt of
        Inl e \<Rightarrow> Some (Inl e)
      | Inr P \<Rightarrow> Interpreter_interpret n P)"

definition parse_fuel :: "string \<Rightarrow> nat" where
  "parse_fuel txt = 3 * length txt + 3"

definition evaluate :: "string \<Rightarrow> (error + pyval) option" where
  "evaluate txt = evaluate_with (parse_fuel txt) txt"

section \<open>The lexer as a function of the unread text\<close>

text \<open>
  A lexer state that the program can reach is determined by its text and its cursor:
  \<open>current_char\<close> is the character under the cursor, or \<open>None\<close> at the end. On such a
  state \<open>get_next_token\<close> depends on the unread text only, and \<open>scan\<close> is that function.
\<close>

definition remaining :: "lexer \<Rightarrow> string" where
  "remaining L = drop (pos L) (input_text L)"

definition lexer_wf :: "lexer \<Rightarrow> bool" where
  "lexer_wf L =
     (pos L \<le> length (input_text L) \<and>
      current_char L = (case remaining L of [] \<Rightarrow> None | c # cs \<Rightarrow> Some c))"

fun scan :: "string \<Rightarrow> error + (token \<times> string)" where
  "scan [] = Inr (Token EOF PyNone, [])"
| "scan (c # cs) =
     (if isspace c then scan cs
      else if isdigit c then
        (case int_py (takeWhile isdigit (c # cs)) of
           Inl e \<Rightarrow> Inl e
         | Inr n \<Rightarrow> Inr (Token INTEGER (PyInt n), dropWhile isdigit (c # cs)))
      else if c = CHR ''+'' then Inr (Token PLUS (PyStr ''+''), cs)
      else if c = CHR ''-'' then Inr (Token MINUS (PyStr ''-''), cs)
      else if c = CHR ''*'' then Inr (Token MUL (PyStr ''*''), cs)
      else if c = CHR ''/'' then Inr (Token DIV (PyStr ''/''), cs)
      else if c = CHR ''('' then Inr (Token LPAREN (PyStr ''(''), cs)
      else if c = CHR '')'' then Inr (Token RPAREN (PyStr '')''), cs)
      else Inl (Exception ''Invalid character''))"

lemma operator_not_isspace [simp]:
  "\<not> isspace CHR ''+''" "\<not> isspace CHR ''-''" "\<not> isspace CHR ''*''"
  "\<not> isspace CHR ''/''" "\<not> isspace CHR ''(''" "\<not> isspace CHR '')''"
  by (simp_all add: isspace_def)

lemma operator_not_isdigit [simp]:
  "\<not> isdigit CHR ''+''" "\<not> isdigit CHR ''-''" "\<not> isdigit CHR ''*''"
  "\<not> isdigit CHR ''/''" "\<not> isdigit CHR ''(''" "\<not> isdigit CHR '')''"
  by (simp_all add: isdigit_def)

lemma lexer_wf_Lexer_init:
  "Lexer_init txt = Inr L \<Longrightarrow> lexer_wf L \<and> remaining L = txt \<and> input_text L = txt"
  by (cases "txt") (auto simp: Lexer_init_def lexer_wf_def remaining_def split: if_splits)

lemma advance_remaining:
  assumes "lexer_wf L" and "remaining L = c # cs"
  shows "lexer_wf (advance L) \<and> remaining (advance L) = cs \<and>
         input_text (advance L) = input_text L"
proof -
  have lt: "pos L < length (input_text L)"
    using assms(2) by (cases "pos L < length (input_text L)") (auto simp: remaining_def)
  have d: "drop (Suc (pos L)) (input_text L) = cs"
    using assms(2) by (metis drop_Suc remaining_def tl_drop list.sel(3))
  have r: "remaining (advance L) = cs"
    using d by (simp add: remaining_def advance_def Let_def)
  have "current_char (advance L) = (case cs of [] \<Rightarrow> None | c # x \<Rightarrow> Some c)"
  proof (cases "Suc (pos L) < length (input_text L)")
    case True
    then have "cs = input_text L ! Suc (pos L) # drop (Suc (Suc (pos L))) (input_text L)"
      using d by (metis Cons_nth_drop_Suc)
    then show ?thesis using True by (auto simp: advance_def Let_def)
  next
    case False
    then have "cs = []" using d by simp
    then show ?thesis using False by (auto simp: advance_def Let_def)
  qed
  then show ?thesis
    using lt r by (auto simp: lexer_wf_def advance_def Let_def)
qed

lemma current_char_remaining:
  "lexer_wf L \<Longrightarrow> current_char L = Some c \<Longrightarrow> \<exists>cs. remaining L = c # cs"
  by (auto simp: lexer_wf_def split: list.splits)

lemma current_char_None:
  "lexer_wf L \<Longrightarrow> current_char L = None \<Longrightarrow> remaining L = []"
  by (auto simp: lexer_wf_def split: list.splits)

lemma skip_whitespace_remaining:
  "lexer_wf L \<Longrightarrow>
   lexer_wf (skip_whitespace L) \<and>
   remaining (skip_whitespace L) = dropWhile isspace (remaining L) \<and>
   input_text (skip_whitespace L) = input_text L"
proof (induction L rule: skip_whitespace.induct)
  case (1 L)
  show ?case
  proof (cases "current_char L")
    case None
    then show ?thesis
      using "1.prems" current_char_None [OF "1.prems" None]
      by (simp add: skip_whitespace.simps [of L])
  next
    case (Some c)
    then obtain cs where r: "remaining L = c # cs"
      using current_char_remaining [OF "1.prems"] by blast
    show ?thesis
    proof (cases "isspace c")
      case True
      have a: "lexer_wf (advance L) \<and> remaining (advance L) = cs \<and>
               input_text (advance L) = input_text L"
        using advance_remaining [OF "1.prems" r] .
      have "lexer_wf (skip_whitespace (advance L)) \<and>
            remaining (skip_whitespace (advance L)) = dropWhile isspace (remaining (advance L)) \<and>
            input_text (skip_whitespace (advance L)) = input_text (advance L)"
        using "1.IH" [OF Some True] a by simp
      then show ?thesis
        using a r Some True by (simp add: skip_whitespace.simps [of L])
    next
      case False
      then show ?thesis
        using "1.prems" r Some by (simp add: skip_whitespace.simps [of L])
    qed
  qed
qed

lemma integer_loop_remaining:
  "lexer_wf L \<Longrightarrow>
   (case integer_loop acc L of
      (res, L') \<Rightarrow>
        res = acc @ takeWhile isdigit (remaining L) \<and> lexer_wf L' \<and>
        remaining L' = dropWhile isdigit (remaining L) \<and>
        input_text L' = input_text L)"
proof (induction acc L rule: integer_loop.induct)
  case (1 acc L)
  show ?case
  proof (cases "current_char L")
    case None
    then show ?thesis
      using "1.prems" current_char_None [OF "1.prems" None]
      by (simp add: integer_loop.simps [of acc L])
  next
    case (Some c)
    then obtain cs where r: "remaining L = c # cs"
      using current_char_remaining [OF "1.prems"] by blast
    show ?thesis
    proof (cases "isdigit c")
      case True
      have a: "lexer_wf (advance L) \<and> remaining (advance L) = cs \<and>
               input_text (advance L) = input_text L"
        using advance_remaining [OF "1.prems" r] .
      have "case integer_loop (acc @ [c]) (advance L) of
              (res, L') \<Rightarrow>
                res = (acc @ [c]) @ takeWhile isdigit (remaining (advance L)) \<and> lexer_wf L' \<and>
                remaining L' = dropWhile isdigit (remaining (advance L)) \<and>
                input_text L' = input_text (advance L)"
        using "1.IH" [OF Some True] a by simp
      then show ?thesis
        using a r Some True by (simp add: integer_loop.simps [of acc L])
    next
      case False
      then show ?thesis
        using "1.prems" r Some by (simp add: integer_loop.simps [of acc L])
    qed
  qed
qed

lemma scan_dropWhile_isspace: "scan (dropWhile isspace s) = scan s"
  by (induction s) auto

lemma get_next_token_scan:
  "lexer_wf L \<Longrightarrow>
   (case get_next_token L of
      Inl e \<Rightarrow> scan (remaining L) = Inl e
    | Inr (t, L') \<Rightarrow>
        scan (remaining L) = Inr (t, remaining L') \<and> lexer_wf L' \<and>
        input_text L' = input_text L)"
proof (induction L rule: get_next_token.induct)
  case (1 L)
  show ?case
  proof (cases "current_char L")
    case None
    then show ?thesis
      using "1.prems" current_char_None [OF "1.prems" None]
      by (simp add: get_next_token.simps [of L])
  next
    case (Some c)
    then obtain cs where r: "remaining L = c # cs"
      using current_char_remaining [OF "1.prems"] by blast
    have a: "lexer_wf (advance L) \<and> remaining (advance L) = cs \<and>
             input_text (advance L) = input_text L"
      using advance_remaining [OF "1.prems" r] .
    show ?thesis
    proof (cases "isspace c")
      case True
      have s: "lexer_wf (skip_whitespace L) \<and>
               remaining (skip_whitespace L) = dropWhile isspace (remaining L) \<and>
               input_text (skip_whitespace L) = input_text L"
        using skip_whitespace_remaining [OF "1.prems"] .
      have g: "get_next_token L = get_next_token (skip_whitespace L)"
        using Some True by (simp add: get_next_token.simps [of L])
      have "case get_next_token (skip_whitespace L) of
              Inl e \<Rightarrow> scan (remaining (skip_whitespace L)) = Inl e
            | Inr (t, L') \<Rightarrow>
                scan (remaining (skip_whitespace L)) = Inr (t, remaining L') \<and> lexer_wf L' \<and>
                input_text L' = input_text (skip_whitespace L)"
        using "1.IH" [OF Some True] s by simp
      then show ?thesis
        using s g by (auto simp: scan_dropWhile_isspace split: sum.splits prod.splits)
    next
      case False
      show ?thesis
      proof (cases "isdigit c")
        case True
        have i: "case integer_loop [] L of
                   (res, L') \<Rightarrow>
                     res = [] @ takeWhile isdigit (remaining L) \<and> lexer_wf L' \<and>
                     remaining L' = dropWhile isdigit (remaining L) \<and>
                     input_text L' = input_text L"
          using integer_loop_remaining [OF "1.prems", of "[]"] .
        then show ?thesis
          using Some False True r
          by (auto simp: get_next_token.simps [of L] integer_def split: prod.splits sum.splits)
      next
        case nd: False
        then show ?thesis
          using Some False a r
          by (simp add: get_next_token.simps [of L])
      qed
    qed
  qed
qed

section \<open>The parser consumes its input\<close>

text \<open>
  \<open>tokens_left\<close> counts the unread characters and the lookahead token, unless that is
  \<open>EOF\<close>. Every successful \<open>eat\<close> makes it smaller, which bounds the fuel the parser
  needs.
\<close>

definition parser_wf :: "parser \<Rightarrow> bool" where
  "parser_wf P = lexer_wf (lexer P)"

definition tokens_left :: "parser \<Rightarrow> nat" where
  "tokens_left P =
     length (remaining (lexer P)) + (if tok_type (current_token P) = EOF then 0 else 1)"

definition parsed_within :: "nat \<Rightarrow> parse_result \<Rightarrow> bool" where
  "parsed_within m res =
     (case res of
        None \<Rightarrow> False
      | Some (Inl e) \<Rightarrow> True
      | Some (Inr (node, P')) \<Rightarrow> parser_wf P' \<and> tokens_left P' \<le> m)"

lemma scan_length:
  "scan s = Inr (t, r) \<Longrightarrow>
   length r \<le> length s \<and> (tok_type t \<noteq> EOF \<longrightarrow> length r < length s) \<and>
   (tok_type t = EOF \<longrightarrow> r = [])"
proof (induction s)
  case Nil
  then show ?case by auto
next
  case (Cons c cs)
  have "length (dropWhile isdigit cs) \<le> length cs"
    by (rule length_dropWhile_le)
  then show ?case
    using Cons by (auto split: if_splits sum.splits)
qed

lemma eat_tokens_left:
  assumes "parser_wf P" and "eat t P = Inr P'" and "t \<noteq> EOF"
  shows "parser_wf P' \<and> tokens_left P' < tokens_left P"
proof -
  have ty: "tok_type (current_token P) = t"
    using assms(2) by (auto simp: eat_def split: if_splits)
  obtain tok lx where g: "get_next_token (lexer P) = Inr (tok, lx)"
    and P': "P' = P\<lparr>lexer := lx, current_token := tok\<rparr>"
    using assms(2) ty by (auto simp: eat_def split: sum.splits)
  have s: "scan (remaining (lexer P)) = Inr (tok, remaining lx) \<and> lexer_wf lx"
    using get_next_token_scan [of "lexer P"] assms(1) g by (simp add: parser_wf_def)
  then have "length (remaining lx) \<le> length (remaining (lexer P)) \<and>
        (tok_type tok \<noteq> EOF \<longrightarrow> length (remaining lx) < length (remaining (lexer P)))"
    using scan_length by blast
  then show ?thesis
    using s ty assms(3) by (auto simp: P' parser_wf_def tokens_left_def)
qed

lemma tokens_left_pos:
  "tok_type (current_token P) \<noteq> EOF \<Longrightarrow> 0 < tokens_left P"
  by (simp add: tokens_left_def)

lemma parsed_within_mono: "parsed_within m res \<Longrightarrow> m \<le> m' \<Longrightarrow> parsed_within m' res"
  by (auto simp: parsed_within_def split: option.splits sum.splits)

lemma factor_enough_fuel:
  assumes e: "\<And>Q. parser_wf Q \<Longrightarrow> 3 * tokens_left Q + 3 \<le> n \<Longrightarrow>
                parsed_within (tokens_left Q) (expr n Q)"
    and wf: "parser_wf P" and n: "3 * tokens_left P + 1 \<le> Suc n"
  shows "parsed_within (tokens_left P) (factor (Suc n) P)"
proof (cases "tok_type (current_token P) = INTEGER")
  case True
  then show ?thesis
    using eat_tokens_left [OF wf, of INTEGER]
    by (auto simp: parsed_within_def split: sum.splits)
next
  case False
  show ?thesis
  proof (cases "tok_type (current_token P) = LPAREN")
    case lp: True
    show ?thesis
    proof (cases "eat LPAREN P")
      case (Inl e)
      then show ?thesis using lp by (simp add: parsed_within_def)
    next
      case (Inr P1)
      have p1: "parser_wf P1 \<and> tokens_left P1 < tokens_left P"
        using eat_tokens_left [OF wf Inr] by simp
      then have "parsed_within (tokens_left P1) (expr n P1)"
        using e [of P1] n by simp
      then show ?thesis
      proof (cases "expr n P1")
        case None
        then show ?thesis
          using \<open>parsed_within (tokens_left P1) (expr n P1)\<close> by (simp add: parsed_within_def)
      next
        case (Some res)
        show ?thesis
        proof (cases res)
          case (Inl e)
          then show ?thesis using lp Inr Some by (simp add: parsed_within_def)
        next
          case r: (Inr np)
          obtain node P2 where np: "np = (node, P2)" by (cases np)
          have p2: "parser_wf P2 \<and> tokens_left P2 \<le> tokens_left P1"
            using \<open>parsed_within (tokens_left P1) (expr n P1)\<close> Some r np
            by (simp add: parsed_within_def)
          show ?thesis
          proof (cases "eat RPAREN P2")
            case (Inl e)
            then show ?thesis using lp Inr Some r np by (simp add: parsed_within_def)
          next
            case p3: (Inr P3)
            have "parser_wf P3 \<and> tokens_left P3 < tokens_left P2"
              using eat_tokens_left [OF _ p3] p2 by simp
            then show ?thesis
              using lp Inr Some r np p3 p1 p2 by (simp add: parsed_within_def)
          qed
        qed
      qed
    qed
  next
    case False
    then show ?thesis
      using \<open>tok_type (current_token P) \<noteq> INTEGER\<close> wf by (simp add: parsed_within_def)
  qed
qed

lemma sequence_enough_fuel:
  assumes f: "\<And>Q. parser_wf Q \<Longrightarrow> 3 * tokens_left Q + k \<le> n \<Longrightarrow>
                parsed_within (tokens_left Q) (first n Q)"
    and l: "\<And>node Q. parser_wf Q \<Longrightarrow> 3 * tokens_left Q + 1 \<le> n \<Longrightarrow>
                parsed_within (tokens_left Q) (loop n node Q)"
    and wf: "parser_wf P" and n: "3 * tokens_left P + k \<le> n" and k: "1 \<le> k"
  shows "parsed_within (tokens_left P)
     (case first n P of
        None \<Rightarrow> None
      | Some (Inl e) \<Rightarrow> Some (Inl e)
      | Some (Inr (node, P1)) \<Rightarrow> loop n node P1)"
proof -
  have pf: "parsed_within (tokens_left P) (first n P)"
    using f [OF wf n] .
  show ?thesis
  proof (cases "first n P")
    case None
    then show ?thesis using pf by (simp add: parsed_within_def)
  next
    case (Some res)
    show ?thesis
    proof (cases res)
      case (Inl e)
      then show ?thesis using Some by (simp add: parsed_within_def)
    next
      case (Inr np)
      obtain node P1 where np: "np = (node, P1)" by (cases np)
      have p1: "parser_wf P1 \<and> tokens_left P1 \<le> tokens_left P"
        using pf Some Inr np by (simp add: parsed_within_def)
      then have "parsed_within (tokens_left P1) (loop n node P1)"
        using l [of P1 node] n k by simp
      then have "parsed_within (tokens_left P) (loop n node P1)"
        using p1 parsed_within_mono by blast
      then show ?thesis using Some Inr np by simp
    qed
  qed
qed

lemma loop_enough_fuel:
  assumes f: "\<And>Q. parser_wf Q \<Longrightarrow> 3 * tokens_left Q + k \<le> n \<Longrightarrow>
                parsed_within (tokens_left Q) (operand n Q)"
    and l: "\<And>node Q. parser_wf Q \<Longrightarrow> 3 * tokens_left Q + 1 \<le> n \<Longrightarrow>
                parsed_within (tokens_left Q) (loop n node Q)"
    and wf: "parser_wf P" and n: "3 * tokens_left P + 1 \<le> Suc n" and k: "k \<le> 3"
    and t: "t \<noteq> EOF"
  shows "parsed_within (tokens_left P)
     (case eat t P of
        Inl e \<Rightarrow> Some (Inl e)
      | Inr P1 \<Rightarrow>
          (case operand n P1 of
             None \<Rightarrow> None
           | Some (Inl e) \<Rightarrow> Some (Inl e)
           | Some (Inr (r, P2)) \<Rightarrow> loop n (mk r) P2))"
proof (cases "eat t P")
  case (Inl e)
  then show ?thesis by (simp add: parsed_within_def)
next
  case (Inr P1)
  have p1: "parser_wf P1 \<and> tokens_left P1 < tokens_left P"
    using eat_tokens_left [OF wf Inr t] .
  then have pf: "parsed_within (tokens_left P1) (operand n P1)"
    using f [of P1] n k by simp
  show ?thesis
  proof (cases "operand n P1")
    case None
    then show ?thesis using pf by (simp add: parsed_within_def)
  next
    case (Some res)
    show ?thesis
    proof (cases res)
      case (Inl e)
      then show ?thesis using Some Inr by (simp add: parsed_within_def)
    next
      case r: (Inr np)
      obtain rn P2 where np: "np = (rn, P2)" by (cases np)
      have p2: "parser_wf P2 \<and> tokens_left P2 \<le> tokens_left P1"
        using pf Some r np by (simp add: parsed_within_def)
      then have "parsed_within (tokens_left P2) (loop n (mk rn) P2)"
        using l [of P2 "mk rn"] n p1 by simp
      then have "parsed_within (tokens_left P) (loop n (mk rn) P2)"
        using p1 p2 parsed_within_mono [of "tokens_left P2" _ "tokens_left P"] by simp
      then show ?thesis using Some Inr r np by simp
    qed
  qed
qed

lemma enough_fuel:
  "(\<forall>P. parser_wf P \<longrightarrow> 3 * tokens_left P + 1 \<le> n \<longrightarrow>
        parsed_within (tokens_left P) (factor n P)) \<and>
   (\<forall>P. parser_wf P \<longrightarrow> 3 * tokens_left P + 2 \<le> n \<longrightarrow>
        parsed_within (tokens_left P) (term_rule n P)) \<and>
   (\<forall>node P. parser_wf P \<longrightarrow> 3 * tokens_left P + 1 \<le> n \<longrightarrow>
        parsed_within (tokens_left P) (term_loop n node P)) \<and>
   (\<forall>P. parser_wf P \<longrightarrow> 3 * tokens_left P + 3 \<le> n \<longrightarrow>
        parsed_within (tokens_left P) (expr n P)) \<and>
   (\<forall>node P. parser_wf P \<longrightarrow> 3 * tokens_left P + 1 \<le> n \<longrightarrow>
        parsed_within (tokens_left P) (expr_loop n node P))"
proof (induction n)
  case 0
  then show ?case by simp
next
  case (Suc n)
  have f: "\<And>Q. parser_wf Q \<Longrightarrow> 3 * tokens_left Q + 1 \<le> n \<Longrightarrow>
             parsed_within (tokens_left Q) (factor n Q)"
    and t: "\<And>Q. parser_wf Q \<Longrightarrow> 3 * tokens_left Q + 2 \<le> n \<Longrightarrow>
             parsed_within (tokens_left Q) (term_rule n Q)"
    and tl: "\<And>node Q. parser_wf Q \<Longrightarrow> 3 * tokens_left Q + 1 \<le> n \<Longrightarrow>
             parsed_within (tokens_left Q) (term_loop n node Q)"
    and e: "\<And>Q. parser_wf Q \<Longrightarrow> 3 * tokens_left Q + 3 \<le> n \<Longrightarrow>
             parsed_within (tokens_left Q) (expr n Q)"
    and el: "\<And>node Q. parser_wf Q \<Longrightarrow> 3 * tokens_left Q + 1 \<le> n \<Longrightarrow>
             parsed_within (tokens_left Q) (expr_loop n node Q)"
    using Suc.IH by blast+
  have 1: "parsed_within (tokens_left P) (factor (Suc n) P)"
    if "parser_wf P" "3 * tokens_left P + 1 \<le> Suc n" for P
    using factor_enough_fuel [of n P] e that by blast
  have 2: "parsed_within (tokens_left P) (term_rule (Suc n) P)"
    if "parser_wf P" "3 * tokens_left P + 2 \<le> Suc n" for P
    using sequence_enough_fuel [of 1 n factor term_loop P] f tl that by simp
  have 3: "parsed_within (tokens_left P) (term_loop (Suc n) node P)"
    if wf: "parser_wf P" and le: "3 * tokens_left P + 1 \<le> Suc n" for node P
  proof -
    have a: "parsed_within (tokens_left P)
       (case eat t P of
          Inl e \<Rightarrow> Some (Inl e)
        | Inr P1 \<Rightarrow>
            (case factor n P1 of
               None \<Rightarrow> None
             | Some (Inl e) \<Rightarrow> Some (Inl e)
             | Some (Inr (r, P2)) \<Rightarrow> term_loop n (BinOp node (current_token P) r) P2))"
      if "t \<noteq> EOF" for t
      using f tl wf le that
      by (intro loop_enough_fuel [where k = 1 and mk = "\<lambda>r. BinOp node (current_token P) r"])
         simp_all
    show ?thesis
    proof (cases "tok_type (current_token P) = MUL")
      case True
      then show ?thesis using a [of MUL] by (simp add: Let_def)
    next
      case False
      show ?thesis
      proof (cases "tok_type (current_token P) = DIV")
        case True
        then show ?thesis using False a [of DIV] by (simp add: Let_def)
      next
        case nd: False
        then show ?thesis using False wf by (simp add: Let_def parsed_within_def)
      qed
    qed
  qed
  have 4: "parsed_within (tokens_left P) (expr (Suc n) P)"
    if "parser_wf P" "3 * tokens_left P + 3 \<le> Suc n" for P
    using sequence_enough_fuel [of 2 n term_rule expr_loop P] t el that by simp
  have 5: "parsed_within (tokens_left P) (expr_loop (Suc n) node P)"
    if wf: "parser_wf P" and le: "3 * tokens_left P + 1 \<le> Suc n" for node P
  proof -
    have a: "parsed_within (tokens_left P)
       (case eat t P of
          Inl e \<Rightarrow> Some (Inl e)
        | Inr P1 \<Rightarrow>
            (case term_rule n P1 of
               None \<Rightarrow> None
             | Some (Inl e) \<Rightarrow> Some (Inl e)
             | Some (Inr (r, P2)) \<Rightarrow> expr_loop n (BinOp node (current_token P) r) P2))"
      if "t \<noteq> EOF" for t
      using t el wf le that
      by (intro loop_enough_fuel [where k = 2 and mk = "\<lambda>r. BinOp node (current_token P) r"])
         simp_all
    show ?thesis
    proof (cases "tok_type (current_token P) = PLUS")
      case True
      then show ?thesis using a [of PLUS] by (simp add: Let_def)
    next
      case False
      show ?thesis
      proof (cases "tok_type (current_token P) = MINUS")
        case True
        then show ?thesis using False a [of MINUS] by (simp add: Let_def)
      next
        case nd: False
        then show ?thesis using False wf by (simp add: Let_def parsed_within_def)
      qed
    qed
  qed
  show ?case using 1 2 3 4 5 by blast
qed

lemma fuel_mono:
  "(\<forall>P res m. factor n P = Some res \<longrightarrow> n \<le> m \<longrightarrow> factor m P = Some res) \<and>
   (\<forall>P res m. term_rule n P = Some res \<longrightarrow> n \<le> m \<longrightarrow> term_rule m P = Some res) \<and>
   (\<forall>node P res m. term_loop n node P = Some res \<longrightarrow> n \<le> m \<longrightarrow>
        term_loop m node P = Some res) \<and>
   (\<forall>P res m. expr n P = Some res \<longrightarrow> n \<le> m \<longrightarrow> expr m P = Some res) \<and>
   (\<forall>node P res m. expr_loop n node P = Some res \<longrightarrow> n \<le> m \<longrightarrow>
        expr_loop m node P = Some res)"
proof (induction n)
  case 0
  then show ?case by simp
next
  case (Suc n)
  have f: "\<And>Q res m. factor n Q = Some res \<Longrightarrow> n \<le> m \<Longrightarrow> factor m Q = Some res"
    and t: "\<And>Q res m. term_rule n Q = Some res \<Longrightarrow> n \<le> m \<Longrightarrow> term_rule m Q = Some res"
    and tl: "\<And>node Q res m. term_loop n node Q = Some res \<Longrightarrow> n \<le> m \<Longrightarrow>
               term_loop m node Q = Some res"
    and e: "\<And>Q res m. expr n Q = Some res \<Longrightarrow> n \<le> m \<Longrightarrow> expr m Q = Some res"
    and el: "\<And>node Q res m. expr_loop n node Q = Some res \<Longrightarrow> n \<le> m \<Longrightarrow>
               expr_loop m node Q = Some res"
    using Suc.IH by blast+
  have 1: "factor (Suc m) P = Some res"
    if "factor (Suc n) P = Some res" "n \<le> m" for P res m
    using that e [of _ _ m]
    by (auto simp: Let_def split: sum.splits option.splits prod.splits if_splits)
  have 2: "term_rule (Suc m) P = Some res"
    if "term_rule (Suc n) P = Some res" "n \<le> m" for P res m
    using that f [of _ _ m] tl [of _ _ _ m]
    by (auto simp: Let_def split: sum.splits option.splits prod.splits if_splits)
  have 3: "term_loop (Suc m) node P = Some res"
    if "term_loop (Suc n) node P = Some res" "n \<le> m" for node P res m
    using that f [of _ _ m] tl [of _ _ _ m]
    by (auto simp: Let_def split: sum.splits option.splits prod.splits if_splits)
  have 4: "expr (Suc m) P = Some res"
    if "expr (Suc n) P = Some res" "n \<le> m" for P res m
    using that t [of _ _ m] el [of _ _ _ m]
    by (auto simp: Let_def split: sum.splits option.splits prod.splits if_splits)
  have 5: "expr_loop (Suc m) node P = Some res"
    if "expr_loop (Suc n) node P = Some res" "n \<le> m" for node P res m
    using that t [of _ _ m] el [of _ _ _ m]
    by (auto simp: Let_def split: sum.splits option.splits prod.splits if_splits)
  have s: "\<exists>m'. m = Suc m' \<and> n \<le> m'" if "Suc n \<le> m" for m
    using that by (cases m) auto
  show ?case
  proof (intro conjI allI impI)
    fix P res m assume "factor (Suc n) P = Some res" "Suc n \<le> m"
    then show "factor m P = Some res" using 1 s by blast
  next
    fix P res m assume "term_rule (Suc n) P = Some res" "Suc n \<le> m"
    then show "term_rule m P = Some res" using 2 s by blast
  next
    fix node P res m assume "term_loop (Suc n) node P = Some res" "Suc n \<le> m"
    then show "term_loop m node P = Some res" using 3 s by blast
  next
    fix P res m assume "expr (Suc n) P = Some res" "Suc n \<le> m"
    then show "expr m P = Some res" using 4 s by blast
  next
    fix node P res m assume "expr_loop (Suc n) node P = Some res" "Suc n \<le> m"
    then show "expr_loop m node P = Some res" using 5 s by blast
  qed
qed

lemma Parser_init_tokens_left:
  assumes "lexer_wf lx" and "Parser_init lx = Inr P"
  shows "parser_wf P \<and> tokens_left P \<le> length (remaining lx)"
proof -
  obtain tok lx' where g: "get_next_token lx = Inr (tok, lx')"
    and P: "P = \<lparr>lexer = lx', current_token = tok\<rparr>"
    using assms(2) by (auto simp: Parser_init_def split: sum.splits)
  have s: "scan (remaining lx) = Inr (tok, remaining lx') \<and> lexer_wf lx'"
    using get_next_token_scan [OF assms(1)] g by simp
  then have "length (remaining lx') \<le> length (remaining lx) \<and>
        (tok_type tok \<noteq> EOF \<longrightarrow> length (remaining lx') < length (remaining lx))"
    using scan_length by blast
  then show ?thesis
    using s by (auto simp: P parser_wf_def tokens_left_def)
qed

lemma parser_of_tokens_left:
  assumes "parser_of txt = Inr P"
  shows "parser_wf P \<and> tokens_left P \<le> length txt"
proof -
  obtain lx where l: "Lexer_init txt = Inr lx" and p: "Parser_init lx = Inr P"
    using assms by (auto simp: parser_of_def split: sum.splits)
  have "lexer_wf lx \<and> remaining lx = txt"
    using lexer_wf_Lexer_init [OF l] by simp
  then show ?thesis
    using Parser_init_tokens_left [OF _ p] by simp
qed

lemma expr_enough_fuel:
  assumes "parser_wf P" and "3 * tokens_left P + 3 \<le> n"
  shows "\<exists>res. expr n P = Some res"
proof -
  have "parsed_within (tokens_left P) (expr n P)"
    using enough_fuel [of n, THEN conjunct2, THEN conjunct2, THEN conjunct2, THEN conjunct1,
        rule_format, OF assms] .
  then show ?thesis
    by (cases "expr n P") (simp_all add: parsed_within_def)
qed

lemma expr_more_fuel:
  assumes "parser_wf P" and "3 * tokens_left P + 3 \<le> n" and "n \<le> m"
  shows "expr m P = expr n P"
proof -
  obtain res where "expr n P = Some res"
    using expr_enough_fuel [OF assms(1,2)] by blast
  then show ?thesis
    using fuel_mono [of n, THEN conjunct2, THEN conjunct2, THEN conjunct2, THEN conjunct1,
        rule_format, OF _ assms(3), of P res] by simp
qed

lemma evaluate_with_more_fuel:
  assumes "parse_fuel txt \<le> n"
  shows "evaluate_with n txt = evaluate txt"
proof (cases "parser_of txt")
  case (Inl e)
  then show ?thesis by (simp add: evaluate_def evaluate_with_def)
next
  case (Inr P)
  have "parser_wf P \<and> tokens_left P \<le> length txt"
    using parser_of_tokens_left [OF Inr] .
  then have "expr n P = expr (parse_fuel txt) P"
    using expr_more_fuel [of P "parse_fuel txt" n] assms by (simp add: parse_fuel_def)
  then show ?thesis
    using Inr by (simp add: evaluate_def evaluate_with_def Interpreter_interpret_def parse_def)
qed

section \<open>Running the parser on a known token sequence\<close>

text \<open>
  What \<open>scan\<close> returns on the unread text decides what \<open>eat\<close> and the constructor of
  the parser do, so the parser can be followed through a text whose tokens are known.
\<close>

lemma expr_fuel_mono: "expr n P = Some res \<Longrightarrow> n \<le> m \<Longrightarrow> expr m P = Some res"
  using fuel_mono [of n, THEN conjunct2, THEN conjunct2, THEN conjunct2, THEN conjunct1]
  by blast

lemma get_next_token_Inl:
  "lexer_wf L \<Longrightarrow> scan (remaining L) = Inl e \<Longrightarrow> get_next_token L = Inl e"
  using get_next_token_scan [of L] by (auto split: sum.splits)

lemma get_next_token_Inr:
  "lexer_wf L \<Longrightarrow> scan (remaining L) = Inr (t, r) \<Longrightarrow>
   \<exists>L'. get_next_token L = Inr (t, L') \<and> lexer_wf L' \<and> remaining L' = r"
  using get_next_token_scan [of L] by (auto split: sum.splits)

lemma eat_scan:
  assumes "parser_wf P" and "tok_type (current_token P) = t"
    and "scan (remaining (lexer P)) = Inr (tok, r)"
  shows "\<exists>P'. eat t P = Inr P' \<and> parser_wf P' \<and> current_token P' = tok \<and>
              remaining (lexer P') = r"
proof -
  obtain L' where "get_next_token (lexer P) = Inr (tok, L')" "lexer_wf L'" "remaining L' = r"
    using get_next_token_Inr [of "lexer P" tok r] assms(1,3) by (auto simp: parser_wf_def)
  then show ?thesis
    using assms(2) by (simp add: eat_def parser_wf_def)
qed

lemma eat_scan_error:
  assumes "parser_wf P" and "tok_type (current_token P) = t"
    and "scan (remaining (lexer P)) = Inl e"
  shows "eat t P = Inl e"
  using get_next_token_Inl [of "lexer P" e] assms by (simp add: eat_def parser_wf_def)

lemma parser_of_scan:
  assumes "s \<noteq> []" and "scan s = Inr (tok, r)"
  shows "\<exists>P. parser_of s = Inr P \<and> parser_wf P \<and> current_token P = tok \<and>
             remaining (lexer P) = r"
proof -
  obtain lx where l: "Lexer_init s = Inr lx"
    using assms(1) by (simp add: Lexer_init_def)
  have w: "lexer_wf lx \<and> remaining lx = s"
    using lexer_wf_Lexer_init [OF l] by simp
  then obtain L' where "get_next_token lx = Inr (tok, L')" "lexer_wf L'" "remaining L' = r"
    using get_next_token_Inr [of lx tok r] assms(2) by auto
  then show ?thesis
    using l by (simp add: parser_of_def Parser_init_def parser_wf_def)
qed

lemma parser_of_scan_error:
  assumes "s \<noteq> []" and "scan s = Inl e"
  shows "parser_of s = Inl e"
proof -
  obtain lx where l: "Lexer_init s = Inr lx"
    using assms(1) by (simp add: Lexer_init_def)
  have w: "lexer_wf lx \<and> remaining lx = s"
    using lexer_wf_Lexer_init [OF l] by simp
  then have "get_next_token lx = Inl e"
    using get_next_token_Inl [of lx e] assms(2) by simp
  then show ?thesis
    using l by (simp add: parser_of_def Parser_init_def)
qed

lemma isspace_not_isdigit: "isspace c \<Longrightarrow> \<not> isdigit c"
  by (auto simp: isspace_def isdigit_def Let_def)

lemma is_decimal_isdigit: "is_decimal c \<Longrightarrow> isdigit c"
  by (auto simp: is_decimal_def isdigit_def Let_def)

lemma is_decimal_not_isspace: "is_decimal c \<Longrightarrow> \<not> isspace c"
  by (auto simp: is_decimal_def isspace_def Let_def)

lemma scan_isspace: "list_all isspace ws \<Longrightarrow> scan (ws @ s) = scan s"
  by (induction ws) auto

lemma takeWhile_isdigit_stop: "s = [] \<or> \<not> isdigit (hd s) \<Longrightarrow> takeWhile isdigit s = []"
  by (cases s) auto

lemma dropWhile_isdigit_stop: "s = [] \<or> \<not> isdigit (hd s) \<Longrightarrow> dropWhile isdigit s = s"
  by (cases s) auto

lemma scan_decimal:
  assumes "ds \<noteq> []" and "list_all is_decimal ds" and "s = [] \<or> \<not> isdigit (hd s)"
  shows "scan (ds @ s) = Inr (Token INTEGER (PyInt (decimal_value ds)), s)"
proof -
  obtain d ds' where ds: "ds = d # ds'"
    using assms(1) by (cases ds) auto
  have all: "\<And>x. x \<in> set ds \<Longrightarrow> isdigit x"
    using assms(2) by (auto simp: list_all_iff is_decimal_isdigit)
  have t: "takeWhile isdigit (ds @ s) = ds"
    using all takeWhile_isdigit_stop [OF assms(3)] by (simp add: takeWhile_append2)
  have d: "dropWhile isdigit (ds @ s) = s"
    using all dropWhile_isdigit_stop [OF assms(3)] by (simp add: dropWhile_append2)
  have i: "int_py ds = Inr (decimal_value ds)"
    using assms(1,2) by (simp add: int_py_def)
  have "\<not> isspace d" "isdigit d"
    using assms(2) ds by (auto simp: is_decimal_not_isspace is_decimal_isdigit)
  then have "scan (d # ds' @ s) =
      (case int_py (takeWhile isdigit (d # ds' @ s)) of
         Inl e \<Rightarrow> Inl e
       | Inr n \<Rightarrow> Inr (Token INTEGER (PyInt n), dropWhile isdigit (d # ds' @ s)))"
    by simp
  then show ?thesis
    using t d i ds by simp
qed

lemma expr_single:
  assumes "current_token P = tok" and "tok_type tok = INTEGER" and "eat INTEGER P = Inr P1"
    and "tok_type (current_token P1) \<notin> {MUL, DIV, PLUS, MINUS}"
  shows "expr (Suc (Suc (Suc n))) P = Some (Inr (Num tok, P1))"
  using assms by (simp add: Let_def)

lemma expr_binary:
  assumes "current_token P0 = ta" and "tok_type ta = INTEGER" and "eat INTEGER P0 = Inr P1"
    and "current_token P1 = tk" and "tok_type tk \<in> {PLUS, MINUS, MUL, DIV}"
    and "eat (tok_type tk) P1 = Inr P2"
    and "current_token P2 = tb" and "tok_type tb = INTEGER" and "eat INTEGER P2 = Inr P3"
    and "tok_type (current_token P3) = EOF"
  shows "expr (Suc (Suc (Suc (Suc (Suc n))))) P0 = Some (Inr (BinOp (Num ta) tk (Num tb), P3))"
proof -
  consider "tok_type tk = PLUS" | "tok_type tk = MINUS" | "tok_type tk = MUL"
    | "tok_type tk = DIV"
    using assms(5) by auto
  then show ?thesis
  proof cases
    case 1
    then show ?thesis using assms by (simp add: Let_def)
  next
    case 2
    then show ?thesis using assms by (simp add: Let_def)
  next
    case 3
    then show ?thesis using assms by (simp add: Let_def)
  next
    case 4
    then show ?thesis using assms by (simp add: Let_def)
  qed
qed

lemma evaluate_expr:
  assumes "parser_of s = Inr P" and "expr n P = Some (Inr (tree, P'))" and "n \<le> parse_fuel s"
  shows "evaluate s = Some (visit tree)"
proof -
  have "expr (parse_fuel s) P = Some (Inr (tree, P'))"
    using expr_fuel_mono [OF assms(2,3)] .
  then show ?thesis
    using assms(1)
    by (simp add: evaluate_def evaluate_with_def Interpreter_interpret_def parse_def)
qed

lemma evaluate_binary:
  assumes da: "da \<noteq> []" "list_all is_decimal da"
    and db: "db \<noteq> []" "list_all is_decimal db"
    and ws: "list_all isspace ws1" "list_all isspace ws2"
    and c: "\<not> isdigit c" "scan (c # ws2 @ db) = Inr (tk, ws2 @ db)"
    and tk: "tok_type tk \<in> {PLUS, MINUS, MUL, DIV}"
  shows "evaluate (da @ ws1 @ c # ws2 @ db) =
     Some (visit (BinOp (Num (Token INTEGER (PyInt (decimal_value da)))) tk
                        (Num (Token INTEGER (PyInt (decimal_value db))))))"
proof -
  let ?r1 = "ws1 @ c # ws2 @ db"
  let ?s = "da @ ?r1"
  let ?ta = "Token INTEGER (PyInt (decimal_value da))"
  let ?tb = "Token INTEGER (PyInt (decimal_value db))"
  have "\<not> isdigit (hd ?r1)"
    using ws(1) c(1) by (cases ws1) (auto simp: isspace_not_isdigit)
  then have s0: "scan ?s = Inr (?ta, ?r1)"
    using scan_decimal [OF da, of ?r1] by simp
  have s1: "scan ?r1 = Inr (tk, ws2 @ db)"
    using scan_isspace [OF ws(1), of "c # ws2 @ db"] c(2) by simp
  have s2: "scan (ws2 @ db) = Inr (?tb, [])"
    using scan_isspace [OF ws(2), of db] scan_decimal [OF db, of "[]"] by simp
  have s3: "scan [] = Inr (Token EOF PyNone, [])"
    by simp
  obtain P0 where P0: "parser_of ?s = Inr P0" "parser_wf P0" "current_token P0 = ?ta"
      "remaining (lexer P0) = ?r1"
    using parser_of_scan [OF _ s0] da(1) by auto
  obtain P1 where P1: "eat INTEGER P0 = Inr P1" "parser_wf P1" "current_token P1 = tk"
      "remaining (lexer P1) = ws2 @ db"
    using eat_scan [of P0 INTEGER tk "ws2 @ db"] P0 s1 by auto
  obtain P2 where P2: "eat (tok_type tk) P1 = Inr P2" "parser_wf P2" "current_token P2 = ?tb"
      "remaining (lexer P2) = []"
    using eat_scan [of P1 "tok_type tk" ?tb "[]"] P1 s2 by auto
  obtain P3 where P3: "eat INTEGER P2 = Inr P3" "current_token P3 = Token EOF PyNone"
    using eat_scan [of P2 INTEGER "Token EOF PyNone" "[]"] P2 s3 by auto
  have "expr (Suc (Suc (Suc (Suc (Suc 0))))) P0 = Some (Inr (BinOp (Num ?ta) tk (Num ?tb), P3))"
    using P0(3) P1(1,3) tk P2(1,3) P3 by (intro expr_binary) simp_all
  moreover have "Suc (Suc (Suc (Suc (Suc 0)))) \<le> parse_fuel ?s"
    using da(1) db(1) by (cases da; cases db) (simp_all add: parse_fuel_def)
  ultimately show ?thesis
    using evaluate_expr [OF P0(1)] by blast
qed

section \<open>The result depends on the token sequence only\<close>

text \<open>
  \<open>tokens\<close> is the sequence of results that repeated calls of \<open>get_next_token\<close> give on
  a text, up to the first error or \<open>EOF\<close>. Two parser states with the same lookahead
  and the same tokens ahead are indistinguishable to the parser.
\<close>

function tokens :: "string \<Rightarrow> (error + token) list" where
  "tokens s =
     (case scan s of
        Inl e \<Rightarrow> [Inl e]
      | Inr (t, r) \<Rightarrow> if tok_type t = EOF then [Inr t] else Inr t # tokens r)"
  by pat_completeness auto
termination
proof (relation "measure length")
  show "wf (measure length)" by simp
next
  fix s :: string and x2 :: "token \<times> string" and x y
  assume "scan s = Inr x2" and "(x, y) = x2" and "tok_type x \<noteq> EOF"
  then show "(y, s) \<in> measure length"
    using scan_length [of s x y] by auto
qed

declare tokens.simps [simp del]

definition same_tokens :: "parser \<Rightarrow> parser \<Rightarrow> bool" where
  "same_tokens P Q =
     (parser_wf P \<and> parser_wf Q \<and> current_token P = current_token Q \<and>
      tokens (remaining (lexer P)) = tokens (remaining (lexer Q)))"

definition same_result :: "parse_result \<Rightarrow> parse_result \<Rightarrow> bool" where
  "same_result a b =
     (case a of
        None \<Rightarrow> b = None
      | Some (Inl e) \<Rightarrow> b = Some (Inl e)
      | Some (Inr (node, P)) \<Rightarrow>
          (case b of
             Some (Inr (node', Q)) \<Rightarrow> node = node' \<and> same_tokens P Q
           | _ \<Rightarrow> False))"

lemma tokens_scan:
  assumes "tokens s1 = tokens s2"
  shows "(case scan s1 of
            Inl e \<Rightarrow> scan s2 = Inl e
          | Inr (t, r1) \<Rightarrow> \<exists>r2. scan s2 = Inr (t, r2) \<and> tokens r1 = tokens r2)"
proof (cases "scan s1")
  case (Inl e)
  then show ?thesis
    using assms tokens.simps [of s1] tokens.simps [of s2]
    by (auto split: sum.splits prod.splits if_splits)
next
  case (Inr p)
  obtain t r1 where p: "p = (t, r1)" by (cases p)
  show ?thesis
  proof (cases "scan s2")
    case l2: (Inl e)
    then show ?thesis
      using assms Inr p tokens.simps [of s1] tokens.simps [of s2]
      by (auto split: if_splits)
  next
    case r2: (Inr q)
    obtain t' r2' where q: "q = (t', r2')" by (cases q)
    have tt: "t = t'"
      using assms Inr p r2 q tokens.simps [of s1] tokens.simps [of s2]
      by (auto split: if_splits)
    have "tokens r1 = tokens r2'"
    proof (cases "tok_type t = EOF")
      case True
      then have "r1 = []" "r2' = []"
        using scan_length [of s1 t r1] scan_length [of s2 t' r2'] Inr p r2 q tt by auto
      then show ?thesis by simp
    next
      case False
      then show ?thesis
        using assms Inr p r2 q tt tokens.simps [of s1] tokens.simps [of s2] by auto
    qed
    then show ?thesis
      using Inr p r2 q tt by simp
  qed
qed

lemma eat_same_tokens:
  assumes "same_tokens P Q"
  shows "(case eat t P of
            Inl e \<Rightarrow> eat t Q = Inl e
          | Inr P' \<Rightarrow> \<exists>Q'. eat t Q = Inr Q' \<and> same_tokens P' Q')"
proof (cases "tok_type (current_token P) = t")
  case False
  then show ?thesis
    using assms by (simp add: eat_def same_tokens_def)
next
  case True
  have wf: "parser_wf P" "parser_wf Q" and ct: "current_token P = current_token Q"
    and tk: "tokens (remaining (lexer P)) = tokens (remaining (lexer Q))"
    using assms by (simp_all add: same_tokens_def)
  have tq: "tok_type (current_token Q) = t"
    using True ct by simp
  show ?thesis
  proof (cases "scan (remaining (lexer P))")
    case (Inl e)
    then have "scan (remaining (lexer Q)) = Inl e"
      using tokens_scan [OF tk] by simp
    then show ?thesis
      using Inl eat_scan_error [OF wf(1) True] eat_scan_error [OF wf(2) tq] by simp
  next
    case (Inr p)
    obtain tok r1 where p: "p = (tok, r1)" by (cases p)
    obtain r2 where r2: "scan (remaining (lexer Q)) = Inr (tok, r2)" "tokens r1 = tokens r2"
      using tokens_scan [OF tk] Inr p by auto
    obtain P' where P': "eat t P = Inr P'" "parser_wf P'" "current_token P' = tok"
        "remaining (lexer P') = r1"
      using eat_scan [OF wf(1) True] Inr p by blast
    obtain Q' where Q': "eat t Q = Inr Q'" "parser_wf Q'" "current_token Q' = tok"
        "remaining (lexer Q') = r2"
      using eat_scan [OF wf(2) tq r2(1)] by blast
    show ?thesis
      using P' Q' r2(2) by (simp add: same_tokens_def)
  qed
qed

lemma same_result_error [simp]: "same_result (Some (Inl e)) (Some (Inl e))"
  by (simp add: same_result_def)

lemma same_result_node [simp]:
  "same_result (Some (Inr (node, P))) (Some (Inr (node', Q))) =
     (node = node' \<and> same_tokens P Q)"
  by (simp add: same_result_def)

lemma same_result_cases:
  assumes "same_result a b"
  obtains "a = None" "b = None"
  | e where "a = Some (Inl e)" "b = Some (Inl e)"
  | node P Q where "a = Some (Inr (node, P))" "b = Some (Inr (node, Q))" "same_tokens P Q"
proof (cases a)
  case None
  then show ?thesis using assms that(1) by (simp add: same_result_def)
next
  case (Some x)
  show ?thesis
  proof (cases x)
    case (Inl e)
    then show ?thesis using assms Some that(2) by (simp add: same_result_def)
  next
    case (Inr p)
    obtain node P where p: "p = (node, P)" by (cases p)
    have "\<exists>Q. b = Some (Inr (node, Q)) \<and> same_tokens P Q"
      using assms Some Inr p
      by (cases b) (auto simp: same_result_def split: sum.splits)
    then show ?thesis using Some Inr p that(3) by blast
  qed
qed

lemma eat_same_cases:
  assumes "same_tokens P Q"
  obtains e where "eat t P = Inl e" "eat t Q = Inl e"
  | P' Q' where "eat t P = Inr P'" "eat t Q = Inr Q'" "same_tokens P' Q'"
  using eat_same_tokens [OF assms, of t] by (cases "eat t P") auto

lemma sequence_same:
  assumes f: "\<And>P Q. same_tokens P Q \<Longrightarrow> same_result (first n P) (first n Q)"
    and l: "\<And>node P Q. same_tokens P Q \<Longrightarrow> same_result (loop n node P) (loop n node Q)"
    and st: "same_tokens P Q"
  shows "same_result
     (case first n P of
        None \<Rightarrow> None
      | Some (Inl e) \<Rightarrow> Some (Inl e)
      | Some (Inr (node, P1)) \<Rightarrow> loop n node P1)
     (case first n Q of
        None \<Rightarrow> None
      | Some (Inl e) \<Rightarrow> Some (Inl e)
      | Some (Inr (node, P1)) \<Rightarrow> loop n node P1)"
  using f [OF st]
proof (cases rule: same_result_cases)
  case 1
  then show ?thesis by (simp add: same_result_def)
next
  case (2 e)
  then show ?thesis by simp
next
  case (3 node P1 Q1)
  then show ?thesis using l [of P1 Q1 node] by simp
qed

lemma loop_same:
  assumes f: "\<And>P Q. same_tokens P Q \<Longrightarrow> same_result (operand n P) (operand n Q)"
    and l: "\<And>node P Q. same_tokens P Q \<Longrightarrow> same_result (loop n node P) (loop n node Q)"
    and st: "same_tokens P Q"
  shows "same_result
     (case eat t P of
        Inl e \<Rightarrow> Some (Inl e)
      | Inr P1 \<Rightarrow>
          (case operand n P1 of
             None \<Rightarrow> None
           | Some (Inl e) \<Rightarrow> Some (Inl e)
           | Some (Inr (r, P2)) \<Rightarrow> loop n (mk r) P2))
     (case eat t Q of
        Inl e \<Rightarrow> Some (Inl e)
      | Inr P1 \<Rightarrow>
          (case operand n P1 of
             None \<Rightarrow> None
           | Some (Inl e) \<Rightarrow> Some (Inl e)
           | Some (Inr (r, P2)) \<Rightarrow> loop n (mk r) P2))"
  using st
proof (cases rule: eat_same_cases [where t = t])
  case (1 e)
  then show ?thesis by simp
next
  case (2 P1 Q1)
  from f [OF 2(3)] show ?thesis
  proof (cases rule: same_result_cases)
    case 1
    then show ?thesis using 2 by (simp add: same_result_def)
  next
    case (2 e)
    then show ?thesis using \<open>eat t P = Inr P1\<close> \<open>eat t Q = Inr Q1\<close> by simp
  next
    case (3 r P2 Q2)
    then show ?thesis
      using \<open>eat t P = Inr P1\<close> \<open>eat t Q = Inr Q1\<close> l [of P2 Q2 "mk r"] by simp
  qed
qed

lemma factor_same:
  assumes e: "\<And>P Q. same_tokens P Q \<Longrightarrow> same_result (expr n P) (expr n Q)"
    and st: "same_tokens P Q"
  shows "same_result (factor (Suc n) P) (factor (Suc n) Q)"
proof -
  have ct: "current_token Q = current_token P"
    using st by (simp add: same_tokens_def)
  show ?thesis
  proof (cases "tok_type (current_token P) = INTEGER")
    case True
    from st show ?thesis
    proof (cases rule: eat_same_cases [where t = INTEGER])
      case (1 e)
      then show ?thesis using True ct by simp
    next
      case (2 P1 Q1)
      then show ?thesis using True ct by simp
    qed
  next
    case False
    show ?thesis
    proof (cases "tok_type (current_token P) = LPAREN")
      case lp: True
      from st show ?thesis
      proof (cases rule: eat_same_cases [where t = LPAREN])
        case (1 e)
        then show ?thesis using lp ct by simp
      next
        case (2 P1 Q1)
        note eatL = \<open>eat LPAREN P = Inr P1\<close> \<open>eat LPAREN Q = Inr Q1\<close>
        from e [OF 2(3)] show ?thesis
        proof (cases rule: same_result_cases)
          case 1
          then show ?thesis using lp ct eatL by (simp add: same_result_def)
        next
          case (2 e)
          then show ?thesis using lp ct eatL by simp
        next
          case (3 node P2 Q2)
          note ex = \<open>expr n P1 = Some (Inr (node, P2))\<close> \<open>expr n Q1 = Some (Inr (node, Q2))\<close>
          from \<open>same_tokens P2 Q2\<close> show ?thesis
          proof (cases rule: eat_same_cases [where t = RPAREN])
            case (1 e)
            then show ?thesis using lp ct eatL ex by simp
          next
            case (2 P3 Q3)
            then show ?thesis using lp ct eatL ex by simp
          qed
        qed
      qed
    next
      case nl: False
      then show ?thesis using False ct st by simp
    qed
  qed
qed

lemma while_same:
  assumes f: "\<And>P Q. same_tokens P Q \<Longrightarrow> same_result (operand n P) (operand n Q)"
    and l: "\<And>node P Q. same_tokens P Q \<Longrightarrow> same_result (loop n node P) (loop n node Q)"
    and st: "same_tokens P Q"
  shows "same_result
     (let token = current_token P in
      if tok_type token = t1 \<or> tok_type token = t2 then
        (case (if tok_type token = t1 then eat t1 P else eat t2 P) of
           Inl e \<Rightarrow> Some (Inl e)
         | Inr P1 \<Rightarrow>
             (case operand n P1 of
                None \<Rightarrow> None
              | Some (Inl e) \<Rightarrow> Some (Inl e)
              | Some (Inr (r, P2)) \<Rightarrow> loop n (BinOp node token r) P2))
      else Some (Inr (node, P)))
     (let token = current_token Q in
      if tok_type token = t1 \<or> tok_type token = t2 then
        (case (if tok_type token = t1 then eat t1 Q else eat t2 Q) of
           Inl e \<Rightarrow> Some (Inl e)
         | Inr P1 \<Rightarrow>
             (case operand n P1 of
                None \<Rightarrow> None
              | Some (Inl e) \<Rightarrow> Some (Inl e)
              | Some (Inr (r, P2)) \<Rightarrow> loop n (BinOp node token r) P2))
      else Some (Inr (node, Q)))"
proof -
  have ct: "current_token Q = current_token P"
    using st by (simp add: same_tokens_def)
  have a: "same_result
       (case eat t P of
          Inl e \<Rightarrow> Some (Inl e)
        | Inr P1 \<Rightarrow>
            (case operand n P1 of
               None \<Rightarrow> None
             | Some (Inl e) \<Rightarrow> Some (Inl e)
             | Some (Inr (r, P2)) \<Rightarrow> loop n (BinOp node (current_token P) r) P2))
       (case eat t Q of
          Inl e \<Rightarrow> Some (Inl e)
        | Inr P1 \<Rightarrow>
            (case operand n P1 of
               None \<Rightarrow> None
             | Some (Inl e) \<Rightarrow> Some (Inl e)
             | Some (Inr (r, P2)) \<Rightarrow> loop n (BinOp node (current_token P) r) P2))" for t
    using f l st
    by (rule loop_same [where mk = "\<lambda>r. BinOp node (current_token P) r"])
  show ?thesis
  proof (cases "tok_type (current_token P) = t1")
    case True
    then show ?thesis using a [of t1] ct by (simp add: Let_def)
  next
    case False
    show ?thesis
    proof (cases "tok_type (current_token P) = t2")
      case True
      then show ?thesis using False a [of t2] ct by (simp add: Let_def)
    next
      case nt: False
      then show ?thesis using False ct st by (simp add: Let_def)
    qed
  qed
qed

lemma parser_same:
  "(\<forall>P Q. same_tokens P Q \<longrightarrow> same_result (factor n P) (factor n Q)) \<and>
   (\<forall>P Q. same_tokens P Q \<longrightarrow> same_result (term_rule n P) (term_rule n Q)) \<and>
   (\<forall>node P Q. same_tokens P Q \<longrightarrow>
        same_result (term_loop n node P) (term_loop n node Q)) \<and>
   (\<forall>P Q. same_tokens P Q \<longrightarrow> same_result (expr n P) (expr n Q)) \<and>
   (\<forall>node P Q. same_tokens P Q \<longrightarrow>
        same_result (expr_loop n node P) (expr_loop n node Q))"
proof (induction n)
  case 0
  then show ?case by (simp add: same_result_def)
next
  case (Suc n)
  have f: "\<And>P Q. same_tokens P Q \<Longrightarrow> same_result (factor n P) (factor n Q)"
    and t: "\<And>P Q. same_tokens P Q \<Longrightarrow> same_result (term_rule n P) (term_rule n Q)"
    and tl: "\<And>node P Q. same_tokens P Q \<Longrightarrow>
               same_result (term_loop n node P) (term_loop n node Q)"
    and e: "\<And>P Q. same_tokens P Q \<Longrightarrow> same_result (expr n P) (expr n Q)"
    and el: "\<And>node P Q. same_tokens P Q \<Longrightarrow>
               same_result (expr_loop n node P) (expr_loop n node Q)"
    using Suc.IH by blast+
  have 1: "same_result (factor (Suc n) P) (factor (Suc n) Q)" if "same_tokens P Q" for P Q
    using e that by (rule factor_same)
  have 2: "same_result (term_rule (Suc n) P) (term_rule (Suc n) Q)"
    if "same_tokens P Q" for P Q
    using sequence_same [of factor n term_loop, OF f tl that] by simp
  have 3: "same_result (term_loop (Suc n) node P) (term_loop (Suc n) node Q)"
    if "same_tokens P Q" for node P Q
    using while_same [of factor n term_loop, OF f tl that, of MUL DIV node] by simp
  have 4: "same_result (expr (Suc n) P) (expr (Suc n) Q)" if "same_tokens P Q" for P Q
    using sequence_same [of term_rule n expr_loop, OF t el that] by simp
  have 5: "same_result (expr_loop (Suc n) node P) (expr_loop (Suc n) node Q)"
    if "same_tokens P Q" for node P Q
    using while_same [of term_rule n expr_loop, OF t el that, of PLUS MINUS node] by simp
  show ?case using 1 2 3 4 5 by blast
qed

lemma tokens_cong: "scan s1 = scan s2 \<Longrightarrow> tokens s1 = tokens s2"
  using tokens.simps [of s1] tokens.simps [of s2] by simp

lemma tokens_isspace: "list_all isspace ws \<Longrightarrow> tokens (ws @ s) = tokens s"
  by (rule tokens_cong) (rule scan_isspace)

lemma tokens_Cons_isspace: "isspace c \<Longrightarrow> tokens (c # s) = tokens s"
  by (rule tokens_cong) simp

lemma scan_single:
  assumes "\<not> isspace c" and "\<not> isdigit c"
  shows "(\<exists>e. \<forall>s. scan (c # s) = Inl e) \<or>
         (\<exists>tok. tok_type tok \<noteq> EOF \<and> (\<forall>s. scan (c # s) = Inr (tok, s)))"
  using assms by auto

lemma tokens_single:
  assumes "\<not> isspace c" and "\<not> isdigit c" and "tokens s1 = tokens s2"
  shows "tokens (c # s1) = tokens (c # s2)"
proof -
  consider e where "\<forall>s. scan (c # s) = Inl e"
    | tok where "tok_type tok \<noteq> EOF" "\<forall>s. scan (c # s) = Inr (tok, s)"
    using scan_single [OF assms(1,2)] by blast
  then show ?thesis
  proof cases
    case 1
    then show ?thesis
      using tokens.simps [of "c # s1"] tokens.simps [of "c # s2"] by simp
  next
    case 2
    then show ?thesis
      using tokens.simps [of "c # s1"] tokens.simps [of "c # s2"] assms(3) by simp
  qed
qed

lemma scan_digits:
  assumes "isdigit c" and "\<forall>x\<in>set ds. isdigit x" and "s = [] \<or> \<not> isdigit (hd s)"
  shows "scan (c # ds @ s) =
     (case int_py (c # ds) of
        Inl e \<Rightarrow> Inl e
      | Inr n \<Rightarrow> Inr (Token INTEGER (PyInt n), s))"
proof -
  have t: "takeWhile isdigit (ds @ s) = ds"
    using assms(2) takeWhile_isdigit_stop [OF assms(3)] by (simp add: takeWhile_append2)
  have d: "dropWhile isdigit (ds @ s) = s"
    using assms(2) dropWhile_isdigit_stop [OF assms(3)] by (simp add: dropWhile_append2)
  have "\<not> isspace c"
    using assms(1) isspace_not_isdigit by blast
  then show ?thesis
    using assms(1) t d by (simp split: sum.splits)
qed

lemma tokens_digits:
  assumes "isdigit c" and "\<forall>x\<in>set ds. isdigit x"
    and "s1 = [] \<or> \<not> isdigit (hd s1)" and "s2 = [] \<or> \<not> isdigit (hd s2)"
    and "tokens s1 = tokens s2"
  shows "tokens (c # ds @ s1) = tokens (c # ds @ s2)"
  using tokens.simps [of "c # ds @ s1"] tokens.simps [of "c # ds @ s2"]
    scan_digits [OF assms(1,2,3)] scan_digits [OF assms(1,2,4)] assms(5)
  by (simp split: sum.splits)

lemma tokens_insert_whitespace:
  assumes "list_all isspace ws"
    and "\<not> (u \<noteq> [] \<and> v \<noteq> [] \<and> isdigit (last u) \<and> isdigit (hd v))"
  shows "tokens (u @ ws @ v) = tokens (u @ v)"
  using assms(2)
proof (induction "length u" arbitrary: u rule: less_induct)
  case less
  show ?case
  proof (cases u)
    case Nil
    then show ?thesis using tokens_isspace [OF assms(1)] by simp
  next
    case (Cons c u')
    have sub: "\<not> (w \<noteq> [] \<and> v \<noteq> [] \<and> isdigit (last w) \<and> isdigit (hd v))"
      if "u = p @ w" for p w
    proof (cases "w = []")
      case True
      then show ?thesis by simp
    next
      case False
      then have "last u = last w" "u \<noteq> []"
        using that by simp_all
      then show ?thesis
        using less.prems by metis
    qed
    have IH: "tokens (w @ ws @ v) = tokens (w @ v)" if "u = p @ w" "p \<noteq> []" for p w
    proof -
      have "length w < length u"
        using that by simp
      then show ?thesis
        using sub [OF that(1)] by (rule less.hyps)
    qed
    have IH': "tokens (u' @ ws @ v) = tokens (u' @ v)"
      using IH [of "[c]" u'] Cons by simp
    show ?thesis
    proof (cases "isspace c")
      case True
      then show ?thesis
        using IH' by (simp add: Cons tokens_Cons_isspace)
    next
      case False
      show ?thesis
      proof (cases "isdigit c")
        case nd: False
        show ?thesis
          using tokens_single [OF False nd IH'] by (simp add: Cons)
      next
        case True
        define d where "d = takeWhile isdigit u'"
        define w where "w = dropWhile isdigit u'"
        have u': "d @ w = u'"
          by (simp add: d_def w_def)
        have dd: "\<forall>x\<in>set d. isdigit x"
          unfolding d_def by (auto dest: set_takeWhileD)
        show ?thesis
        proof (cases "w = []")
          case wn: False
          have hw: "\<not> isdigit (hd w)"
            using wn unfolding w_def by (rule hd_dropWhile)
          have s1: "w @ ws @ v = [] \<or> \<not> isdigit (hd (w @ ws @ v))"
            and s2: "w @ v = [] \<or> \<not> isdigit (hd (w @ v))"
            using wn hw by simp_all
          have "u = (c # d) @ w"
            using u' by (simp add: Cons)
          then have "tokens (w @ ws @ v) = tokens (w @ v)"
            by (rule IH) simp
          then have "tokens (c # d @ w @ ws @ v) = tokens (c # d @ w @ v)"
            by (rule tokens_digits [OF True dd s1 s2])
          then have "tokens (c # (d @ w) @ ws @ v) = tokens (c # (d @ w) @ v)"
            by simp
          then show ?thesis
            unfolding u' by (simp add: Cons)
        next
          case we: True
          have "d = u'"
            using u' we by simp
          then have all: "\<forall>x\<in>set u'. isdigit x"
            using dd by simp
          have "isdigit (last (c # u'))"
            using True all by (cases "u' = []") simp_all
          then have v: "v = [] \<or> \<not> isdigit (hd v)"
            using less.prems by (auto simp: Cons)
          have wsv: "ws @ v = [] \<or> \<not> isdigit (hd (ws @ v))"
          proof (cases ws)
            case Nil
            then show ?thesis using v by simp
          next
            case (Cons x xs)
            then have "isspace x" using assms(1) by simp
            then show ?thesis using Cons by (simp add: isspace_not_isdigit)
          qed
          have "tokens (ws @ v) = tokens v"
            using tokens_isspace [OF assms(1)] .
          then have "tokens (c # u' @ ws @ v) = tokens (c # u' @ v)"
            by (rule tokens_digits [OF True all wsv v])
          then show ?thesis
            by (simp add: Cons)
        qed
      qed
    qed
  qed
qed

lemma parser_of_same_tokens:
  assumes "s1 \<noteq> []" and "s2 \<noteq> []" and "tokens s1 = tokens s2"
  shows "(case parser_of s1 of
            Inl e \<Rightarrow> parser_of s2 = Inl e
          | Inr P \<Rightarrow> \<exists>Q. parser_of s2 = Inr Q \<and> same_tokens P Q)"
proof (cases "scan s1")
  case (Inl e)
  then have "scan s2 = Inl e"
    using tokens_scan [OF assms(3)] by simp
  then show ?thesis
    using Inl parser_of_scan_error [OF assms(1)] parser_of_scan_error [OF assms(2)] by simp
next
  case (Inr p)
  obtain tok r1 where p: "p = (tok, r1)" by (cases p)
  obtain r2 where r2: "scan s2 = Inr (tok, r2)" "tokens r1 = tokens r2"
    using tokens_scan [OF assms(3)] Inr p by auto
  obtain P where P: "parser_of s1 = Inr P" "parser_wf P" "current_token P = tok"
      "remaining (lexer P) = r1"
    using parser_of_scan [OF assms(1)] Inr p by blast
  obtain Q where Q: "parser_of s2 = Inr Q" "parser_wf Q" "current_token Q = tok"
      "remaining (lexer Q) = r2"
    using parser_of_scan [OF assms(2) r2(1)] by blast
  show ?thesis
    using P Q r2(2) by (simp add: same_tokens_def)
qed

lemma expr_same_tokens: "same_tokens P Q \<Longrightarrow> same_result (expr n P) (expr n Q)"
  using parser_same [of n, THEN conjunct2, THEN conjunct2, THEN conjunct2, THEN conjunct1]
  by blast

lemma evaluate_with_same_tokens:
  assumes "s1 \<noteq> []" and "s2 \<noteq> []" and "tokens s1 = tokens s2"
  shows "evaluate_with n s1 = evaluate_with n s2"
proof (cases "parser_of s1")
  case (Inl e)
  then show ?thesis
    using parser_of_same_tokens [OF assms] by (simp add: evaluate_with_def)
next
  case (Inr P)
  then obtain Q where Q: "parser_of s2 = Inr Q" "same_tokens P Q"
    using parser_of_same_tokens [OF assms] by auto
  from expr_same_tokens [OF Q(2), of n] show ?thesis
  proof (cases rule: same_result_cases)
    case 1
    then show ?thesis
      using Inr Q(1) by (simp add: evaluate_with_def Interpreter_interpret_def parse_def)
  next
    case (2 e)
    then show ?thesis
      using Inr Q(1) by (simp add: evaluate_with_def Interpreter_interpret_def parse_def)
  next
    case (3 node P' Q')
    then show ?thesis
      using Inr Q(1) by (simp add: evaluate_with_def Interpreter_interpret_def parse_def)
  qed
qed

lemma evaluate_same_tokens:
  assumes "s1 \<noteq> []" and "s2 \<noteq> []" and "tokens s1 = tokens s2"
  shows "evaluate s1 = evaluate s2"
proof -
  let ?n = "max (parse_fuel s1) (parse_fuel s2)"
  have "evaluate s1 = evaluate_with ?n s1"
    using evaluate_with_more_fuel [of s1 ?n] by simp
  also have "\<dots> = evaluate_with ?n s2"
    using assms by (rule evaluate_with_same_tokens)
  also have "\<dots> = evaluate s2"
    using evaluate_with_more_fuel [of s2 ?n] by simp
  finally show ?thesis .
qed

section \<open>Expressions with two operators\<close>

text \<open>
  A parser state \<open>at_text P t r\<close> has the lookahead \<open>t\<close> and the unread text \<open>r\<close>.
  The lemmas follow the parser through \<open>a OP b OP c\<close> and \<open>(a OP b) OP c\<close> and give the
  tree it builds.
\<close>

definition at_text :: "parser \<Rightarrow> token \<Rightarrow> string \<Rightarrow> bool" where
  "at_text P t r = (parser_wf P \<and> current_token P = t \<and> remaining (lexer P) = r)"



lemma at_text_token: "at_text P t r \<Longrightarrow> current_token P = t"
  by (simp add: at_text_def)












section \<open>Claims\<close>

text \<open>
  Claim C8: for every finite input text the whole pipeline terminates. The lexer's loops
  and \<open>visit\<close> are total functions; the parser never runs out of the fuel that
  \<open>evaluate\<close> gives it, so \<open>evaluate\<close> returns a value or an error on every text,
  and any larger amount of fuel gives the same result.
\<close>

theorem evaluate_terminates:
  "(\<exists>res. evaluate txt = Some res) \<and>
   (\<forall>n. parse_fuel txt \<le> n \<longrightarrow> evaluate_with n txt = evaluate txt)"
proof
  show "\<exists>res. evaluate txt = Some res"
  proof (cases "parser_of txt")
    case (Inl e)
    then show ?thesis by (simp add: evaluate_def evaluate_with_def)
  next
    case (Inr P)
    have "parser_wf P \<and> tokens_left P \<le> length txt"
      using parser_of_tokens_left [OF Inr] .
    then obtain res where "expr (parse_fuel txt) P = Some res"
      using expr_enough_fuel [of P "parse_fuel txt"] by (auto simp: parse_fuel_def)
    then show ?thesis
      using Inr
      by (auto simp: evaluate_def evaluate_with_def Interpreter_interpret_def parse_def
          split: sum.splits)
  qed
  show "\<forall>n. parse_fuel txt \<le> n \<longrightarrow> evaluate_with n txt = evaluate txt"
    using evaluate_with_more_fuel by blast
qed

text \<open>
  Claim C8, at the text \<open>(1+2)*3\<close> with 40 units of fuel.
\<close>

theorem evaluate_terminates_witness:
  "(\<exists>res. evaluate ''(1+2)*3'' = Some res) \<and>
   parse_fuel ''(1+2)*3'' \<le> 40 \<and>
   evaluate_with 40 ''(1+2)*3'' = evaluate ''(1+2)*3''"
  using evaluate_terminates [of "''(1+2)*3''"] by (simp add: parse_fuel_def)

text \<open>
  Claim C2 as stated fails on \<open>-7 / 2\<close>: the grammar has no unary minus, so the text
  does not evaluate to \<open>-4\<close>.
\<close>

theorem floor_division_counterexample:
  "evaluate ''-7 / 2'' \<noteq> Some (Inr (PyInt (- 4)))"
  by code_simp

text \<open>
  Claim C2, amended: \<open>7 / 2\<close> evaluates to 3, and division rounds towards negative
  infinity: with the negative dividend written as a subtraction, \<open>(0 - 7) / 2\<close>
  evaluates to \<open>-4\<close>, not to \<open>-3\<close>.
\<close>

theorem floor_division:
  "evaluate ''7 / 2'' = Some (Inr (PyInt 3)) \<and>
   evaluate ''(0 - 7) / 2'' = Some (Inr (PyInt (- 4)))"
  by code_simp

text \<open>
  Claim C3 says that \<open>factor\<close> fails with a syntax error when the lookahead is neither
  an integer nor a left parenthesis. On the text \<open>+3\<close> the lookahead is \<open>PLUS\<close>, and
  \<open>factor\<close> returns \<open>None\<close> without raising and without consuming a token; the
  evaluation then fails in \<open>generic_visit\<close>, not with \<open>Invalid syntax\<close>.
\<close>

theorem factor_returns_None:
  "parser_of ''+3'' =
     Inr \<lparr>lexer = \<lparr>input_text = ''+3'', pos = 1, current_char = Some CHR ''3''\<rparr>,
          current_token = Token PLUS (PyStr ''+'')\<rparr> \<and>
   factor 1 \<lparr>lexer = \<lparr>input_text = ''+3'', pos = 1, current_char = Some CHR ''3''\<rparr>,
             current_token = Token PLUS (PyStr ''+'')\<rparr> =
     Some (Inr (NoneNode,
       \<lparr>lexer = \<lparr>input_text = ''+3'', pos = 1, current_char = Some CHR ''3''\<rparr>,
        current_token = Token PLUS (PyStr ''+'')\<rparr>)) \<and>
   evaluate ''+3'' = Some (Inl (Exception ''No visit_NoneType method''))"
  by code_simp

text \<open>
  Claim C4 says that every \<open>BinOp\<close> of a returned tree has both children. On the text
  \<open>+3\<close> \<open>parse\<close> returns a \<open>BinOp\<close> whose left child is \<open>None\<close>.
\<close>

theorem parse_missing_child:
  "parser_of ''+3'' =
     Inr \<lparr>lexer = \<lparr>input_text = ''+3'', pos = 1, current_char = Some CHR ''3''\<rparr>,
          current_token = Token PLUS (PyStr ''+'')\<rparr> \<and>
   parse (parse_fuel ''+3'')
     \<lparr>lexer = \<lparr>input_text = ''+3'', pos = 1, current_char = Some CHR ''3''\<rparr>,
      current_token = Token PLUS (PyStr ''+'')\<rparr> =
     Some (Inr (BinOp NoneNode (Token PLUS (PyStr ''+'')) (Num (Token INTEGER (PyInt 3))),
       \<lparr>lexer = \<lparr>input_text = ''+3'', pos = 2, current_char = None\<rparr>,
        current_token = Token EOF PyNone\<rparr>))"
  by code_simp



text \<open>
  Claim C9: the constructor of the lexer indexes the first character of the text, so on
  the empty text it raises \<open>IndexError\<close>, and \<open>evaluate\<close> fails with that error, which
  is neither of the errors of the lexer, the parser or the division.
\<close>

theorem empty_text_IndexError:
  "Lexer_init '''' = Inl IndexError \<and> evaluate '''' = Some (Inl IndexError)"
  by code_simp

text \<open>
  Claim C1: for every text \<open>a OP b\<close>, where \<open>a\<close> and \<open>b\<close> are non-empty runs of the digits
  \<open>0\<close> to \<open>9\<close>, \<open>OP\<close> is one of \<open>+ - * /\<close> and any amount of whitespace (also none)
  stands on either side of the operator, \<open>evaluate\<close> returns the sum, the difference or
  the product of the two base-10 values, and for \<open>/\<close> their floor quotient; when the
  divisor is zero it fails with \<open>ZeroDivisionError\<close>, which is an \<open>ArithmeticError\<close>.
\<close>

theorem binary_expression:
  assumes "da \<noteq> []" and "list_all is_decimal da" and "db \<noteq> []" and "list_all is_decimal db"
    and "list_all isspace ws1" and "list_all isspace ws2"
  shows "evaluate (da @ ws1 @ ''+'' @ ws2 @ db) =
           Some (Inr (PyInt (decimal_value da + decimal_value db))) \<and>
         evaluate (da @ ws1 @ ''-'' @ ws2 @ db) =
           Some (Inr (PyInt (decimal_value da - decimal_value db))) \<and>
         evaluate (da @ ws1 @ ''*'' @ ws2 @ db) =
           Some (Inr (PyInt (decimal_value da * decimal_value db))) \<and>
         evaluate (da @ ws1 @ ''/'' @ ws2 @ db) =
           (if decimal_value db = 0 then Some (Inl ZeroDivisionError)
            else Some (Inr (PyInt (decimal_value da div decimal_value db))))"
proof (intro conjI)
  show "evaluate (da @ ws1 @ ''+'' @ ws2 @ db) =
           Some (Inr (PyInt (decimal_value da + decimal_value db)))"
    using evaluate_binary [OF assms, of "CHR ''+''" "Token PLUS (PyStr ''+'')"]
    by (simp add: binop_def)
  show "evaluate (da @ ws1 @ ''-'' @ ws2 @ db) =
           Some (Inr (PyInt (decimal_value da - decimal_value db)))"
    using evaluate_binary [OF assms, of "CHR ''-''" "Token MINUS (PyStr ''-'')"]
    by (simp add: binop_def)
  show "evaluate (da @ ws1 @ ''*'' @ ws2 @ db) =
           Some (Inr (PyInt (decimal_value da * decimal_value db)))"
    using evaluate_binary [OF assms, of "CHR ''*''" "Token MUL (PyStr ''*'')"]
    by (simp add: binop_def)
  show "evaluate (da @ ws1 @ ''/'' @ ws2 @ db) =
           (if decimal_value db = 0 then Some (Inl ZeroDivisionError)
            else Some (Inr (PyInt (decimal_value da div decimal_value db))))"
    using evaluate_binary [OF assms, of "CHR ''/''" "Token DIV (PyStr ''/'')"]
    by (simp add: binop_def)
qed

text \<open>
  Claim C1, at the literals \<open>17\<close> and \<open>5\<close>, and at the divisor \<open>0\<close>.
\<close>

theorem binary_expression_witness:
  "''17'' \<noteq> [] \<and> list_all is_decimal ''17'' \<and> ''5'' \<noteq> [] \<and> list_all is_decimal ''5'' \<and>
   ''0'' \<noteq> [] \<and> list_all is_decimal ''0'' \<and> list_all isspace '' '' \<and>
   decimal_value ''17'' = 17 \<and> decimal_value ''5'' = 5 \<and> decimal_value ''0'' = 0 \<and>
   evaluate ''17 + 5'' = Some (Inr (PyInt 22)) \<and>
   evaluate ''17 - 5'' = Some (Inr (PyInt 12)) \<and>
   evaluate ''17 * 5'' = Some (Inr (PyInt 85)) \<and>
   evaluate ''17 / 5'' = Some (Inr (PyInt 3)) \<and>
   evaluate ''17 / 0'' = Some (Inl ZeroDivisionError)"
proof -
  have h: "''17'' \<noteq> []" "list_all is_decimal ''17''" "''5'' \<noteq> []" "list_all is_decimal ''5''"
    "list_all isspace '' ''" "''0'' \<noteq> []" "list_all is_decimal ''0''"
    by (simp_all add: is_decimal_def isspace_def)
  have v: "decimal_value ''17'' = 17" "decimal_value ''5'' = 5" "decimal_value ''0'' = 0"
    by (simp_all add: decimal_value_def)
  show ?thesis
    using h v binary_expression [OF h(1) h(2) h(3) h(4) h(5) h(5)]
      binary_expression [OF h(1) h(2) h(6) h(7) h(5) h(5)]
    by simp
qed

text \<open>
  Claim C7 as stated fails: the error of the lexer is \<open>Exception('Invalid character')\<close>
  and carries neither the character nor its position. The texts \<open>1 @ 2\<close> (\<open>@\<close> at
  index 2) and \<open>#\<close> (\<open>#\<close> at index 0) fail with the same error value.
\<close>

theorem invalid_character_counterexample:
  "evaluate ''1 @ 2'' = Some (Inl (Exception ''Invalid character'')) \<and>
   evaluate ''#'' = evaluate ''1 @ 2''"
  by code_simp

text \<open>
  Claim C7, amended: when the first character that is not whitespace at or after the
  cursor is not a digit and not one of \<open>+ - * / ( )\<close>, \<open>get_next_token\<close> fails with
  \<open>Exception('Invalid character')\<close>; the text \<open>1 @ 2\<close> fails with that error.
\<close>

theorem invalid_character:
  "(lexer_wf L \<and> dropWhile isspace (remaining L) = c # cs \<and> \<not> isdigit c \<and>
    c \<notin> set ''+-*/()'' \<longrightarrow>
      get_next_token L = Inl (Exception ''Invalid character'')) \<and>
   evaluate ''1 @ 2'' = Some (Inl (Exception ''Invalid character''))"
proof
  show "lexer_wf L \<and> dropWhile isspace (remaining L) = c # cs \<and> \<not> isdigit c \<and>
    c \<notin> set ''+-*/()'' \<longrightarrow> get_next_token L = Inl (Exception ''Invalid character'')"
  proof
    assume a: "lexer_wf L \<and> dropWhile isspace (remaining L) = c # cs \<and> \<not> isdigit c \<and>
      c \<notin> set ''+-*/()''"
    have "dropWhile isspace (remaining L) \<noteq> []"
      using a by simp
    then have "\<not> isspace (hd (dropWhile isspace (remaining L)))"
      by (rule hd_dropWhile)
    then have "\<not> isspace c" using a by simp
    then have "scan (c # cs) = Inl (Exception ''Invalid character'')"
      using a by simp
    then have "scan (remaining L) = Inl (Exception ''Invalid character'')"
      using a scan_dropWhile_isspace [of "remaining L"] by simp
    then show "get_next_token L = Inl (Exception ''Invalid character'')"
      using a get_next_token_Inl by blast
  qed
  show "evaluate ''1 @ 2'' = Some (Inl (Exception ''Invalid character''))"
    by code_simp
qed

text \<open>
  Claim C7, amended, at the lexer state after the first token of \<open>1 @ 2\<close>.
\<close>

theorem invalid_character_witness:
  "lexer_wf \<lparr>input_text = ''1 @ 2'', pos = 1, current_char = Some CHR '' ''\<rparr> \<and>
   dropWhile isspace (remaining \<lparr>input_text = ''1 @ 2'', pos = 1, current_char = Some CHR '' ''\<rparr>)
     = CHR ''@'' # '' 2'' \<and>
   \<not> isdigit CHR ''@'' \<and> CHR ''@'' \<notin> set ''+-*/()'' \<and>
   get_next_token \<lparr>input_text = ''1 @ 2'', pos = 1, current_char = Some CHR '' ''\<rparr>
     = Inl (Exception ''Invalid character'')"
proof -
  let ?L = "\<lparr>input_text = ''1 @ 2'', pos = 1, current_char = Some CHR '' ''\<rparr>"
  have h: "lexer_wf ?L \<and> dropWhile isspace (remaining ?L) = CHR ''@'' # '' 2'' \<and>
           \<not> isdigit CHR ''@'' \<and> CHR ''@'' \<notin> set ''+-*/()''"
    by (simp add: lexer_wf_def remaining_def isspace_def isdigit_def)
  show ?thesis
    using h invalid_character [of ?L "CHR ''@''" "'' 2''"] by blast
qed

text \<open>
  Claim C10: \<open>parse\<close> does not require the lookahead to be \<open>EOF\<close> when \<open>expr\<close>
  returns. On \<open>1 2\<close> it returns the tree of \<open>1\<close> with the lookahead at the token
  \<open>2\<close>, and \<open>evaluate\<close> returns 1; whatever follows \<open>1 2\<close> and a space is never read.
\<close>

theorem trailing_tokens_ignored:
  "evaluate ''1 2'' = Some (Inr (PyInt 1)) \<and>
   parser_of ''1 2'' =
     Inr \<lparr>lexer = \<lparr>input_text = ''1 2'', pos = 1, current_char = Some CHR '' ''\<rparr>,
          current_token = Token INTEGER (PyInt 1)\<rparr> \<and>
   parse (parse_fuel ''1 2'')
     \<lparr>lexer = \<lparr>input_text = ''1 2'', pos = 1, current_char = Some CHR '' ''\<rparr>,
      current_token = Token INTEGER (PyInt 1)\<rparr> =
     Some (Inr (Num (Token INTEGER (PyInt 1)),
       \<lparr>lexer = \<lparr>input_text = ''1 2'', pos = 3, current_char = None\<rparr>,
        current_token = Token INTEGER (PyInt 2)\<rparr>)) \<and>
   (\<forall>rest. evaluate (''1 2 '' @ rest) = Some (Inr (PyInt 1)))"
proof (intro conjI allI)
  show "evaluate ''1 2'' = Some (Inr (PyInt 1))"
    by code_simp
  show "parser_of ''1 2'' =
     Inr \<lparr>lexer = \<lparr>input_text = ''1 2'', pos = 1, current_char = Some CHR '' ''\<rparr>,
          current_token = Token INTEGER (PyInt 1)\<rparr>"
    by code_simp
  show "parse (parse_fuel ''1 2'')
     \<lparr>lexer = \<lparr>input_text = ''1 2'', pos = 1, current_char = Some CHR '' ''\<rparr>,
      current_token = Token INTEGER (PyInt 1)\<rparr> =
     Some (Inr (Num (Token INTEGER (PyInt 1)),
       \<lparr>lexer = \<lparr>input_text = ''1 2'', pos = 3, current_char = None\<rparr>,
        current_token = Token INTEGER (PyInt 2)\<rparr>))"
    by code_simp
next
  fix rest
  let ?t1 = "Token INTEGER (PyInt 1)"
  let ?t2 = "Token INTEGER (PyInt 2)"
  have d1: "list_all is_decimal ''1''" "decimal_value ''1'' = 1"
    and d2: "list_all is_decimal ''2''" "decimal_value ''2'' = 2"
    by (simp_all add: is_decimal_def decimal_value_def)
  have sp: "isspace CHR '' ''" "\<not> isdigit CHR '' ''"
    by (simp_all add: isspace_def isdigit_def)
  have s0: "scan (''1 2 '' @ rest) = Inr (?t1, '' 2 '' @ rest)"
    using scan_decimal [of "''1''" "'' 2 '' @ rest"] d1 sp by simp
  have "scan (''2'' @ '' '' @ rest) = Inr (?t2, '' '' @ rest)"
    using scan_decimal [of "''2''" "'' '' @ rest"] d2 sp by simp
  then have s1: "scan ('' 2 '' @ rest) = Inr (?t2, '' '' @ rest)"
    using sp by simp
  obtain P0 where P0: "parser_of (''1 2 '' @ rest) = Inr P0" "parser_wf P0"
      "current_token P0 = ?t1" "remaining (lexer P0) = '' 2 '' @ rest"
    using parser_of_scan [OF _ s0] by auto
  obtain P1 where P1: "eat INTEGER P0 = Inr P1" "current_token P1 = ?t2"
    using eat_scan [of P0 INTEGER ?t2 "'' '' @ rest"] P0 s1 by auto
  have "expr (Suc (Suc (Suc 0))) P0 = Some (Inr (Num ?t1, P1))"
    using P0(3) P1 by (intro expr_single) simp_all
  moreover have "Suc (Suc (Suc 0)) \<le> parse_fuel (''1 2 '' @ rest)"
    by (simp add: parse_fuel_def)
  ultimately have "evaluate (''1 2 '' @ rest) = Some (visit (Num ?t1))"
    using evaluate_expr [OF P0(1)] by blast
  then show "evaluate (''1 2 '' @ rest) = Some (Inr (PyInt 1))"
    by simp
qed

text \<open>
  Claim C6 as stated fails for some texts: removing the space between the tokens \<open>1\<close>
  and \<open>2\<close> of \<open>1 2\<close> joins them into the token \<open>12\<close> and changes the result from
  1 to 12; and the text of one space fails in \<open>generic_visit\<close>, while the empty text
  fails in the constructor of the lexer.
\<close>

theorem whitespace_counterexample:
  "evaluate ''1 2'' \<noteq> evaluate ''12'' \<and> evaluate '' '' \<noteq> evaluate ''''"
  by code_simp

text \<open>
  Claim C6, amended: in a text that is not empty without it, a run of whitespace can be
  inserted or removed at any place that is not between two digits without changing the
  result of \<open>evaluate\<close>; in particular \<open>  4+2 *3-6/2 \<close> and \<open>4+2*3-6/2\<close> evaluate to
  the same result.
\<close>

theorem whitespace_insensitive:
  "(list_all isspace ws \<and> u @ v \<noteq> [] \<and>
    \<not> (u \<noteq> [] \<and> v \<noteq> [] \<and> isdigit (last u) \<and> isdigit (hd v)) \<longrightarrow>
      evaluate (u @ ws @ v) = evaluate (u @ v)) \<and>
   evaluate ''  4+2 *3-6/2 '' = evaluate ''4+2*3-6/2''"
proof
  show "list_all isspace ws \<and> u @ v \<noteq> [] \<and>
    \<not> (u \<noteq> [] \<and> v \<noteq> [] \<and> isdigit (last u) \<and> isdigit (hd v)) \<longrightarrow>
      evaluate (u @ ws @ v) = evaluate (u @ v)"
  proof
    assume a: "list_all isspace ws \<and> u @ v \<noteq> [] \<and>
      \<not> (u \<noteq> [] \<and> v \<noteq> [] \<and> isdigit (last u) \<and> isdigit (hd v))"
    have t: "tokens (u @ ws @ v) = tokens (u @ v)"
      using a by (intro tokens_insert_whitespace) simp_all
    have n: "u @ ws @ v \<noteq> []" "u @ v \<noteq> []"
      using a by auto
    show "evaluate (u @ ws @ v) = evaluate (u @ v)"
      using n t by (rule evaluate_same_tokens)
  qed
  have "evaluate ''  4+2 *3-6/2 '' = Some (Inr (PyInt 7))"
    by code_simp
  moreover have "evaluate ''4+2*3-6/2'' = Some (Inr (PyInt 7))"
    by code_simp
  ultimately show "evaluate ''  4+2 *3-6/2 '' = evaluate ''4+2*3-6/2''"
    by simp
qed

text \<open>
  Claim C6, amended, at the space between \<open>4\<close> and \<open>+2\<close>.
\<close>

theorem whitespace_insensitive_witness:
  "list_all isspace '' '' \<and> ''4'' @ ''+2'' \<noteq> [] \<and>
   \<not> (''4'' \<noteq> [] \<and> ''+2'' \<noteq> [] \<and> isdigit (last ''4'') \<and> isdigit (hd ''+2'')) \<and>
   evaluate ''4 +2'' = evaluate ''4+2''"
proof -
  have h: "list_all isspace '' '' \<and> ''4'' @ ''+2'' \<noteq> [] \<and>
    \<not> (''4'' \<noteq> [] \<and> ''+2'' \<noteq> [] \<and> isdigit (last ''4'') \<and> isdigit (hd ''+2''))"
    by (simp add: isspace_def)
  show ?thesis
    using h whitespace_insensitive [of "'' ''" "''4''" "''+2''"] by simp
qed

end
